theory Spec2Isabelle
  imports Main "HOL-Library.Word" "HOL-Library.Sublist"
begin

section \<open>The task store of go-todo-app (models/task.go)\<close>

text \<open>
  Go's \<open>int\<close> is a two's-complement machine integer; on the 64-bit targets the server is
  built for it has 64 bits, \<open>++\<close> wraps around, and \<open>==\<close>, \<open><\<close> compare the signed value.
  IDs and the counter are therefore \<open>64 word\<close>, read with \<open>sint\<close> and compared with
  \<open><s\<close> and \<open>\<le>s\<close>.

  Every method of \<open>TodoApp\<close> holds the store's mutex for its whole body, so the methods
  are modelled as atomic steps on the store: a method takes the store and returns its
  result together with the store it leaves behind.
\<close>

type_synonym int64 = "64 word"

record Task =
  ID :: int64
  Title :: string
  Completed :: bool

record TodoApp =
  tasks :: "Task list"
  nextID :: int64

definition NewTodoApp :: TodoApp where
  "NewTodoApp = \<lparr>tasks = [], nextID = 1\<rparr>"

definition AddTask :: "string \<Rightarrow> TodoApp \<Rightarrow> Task \<times> TodoApp" where
  "AddTask title app =
     (let task = \<lparr>ID = nextID app, Title = title, Completed = False\<rparr>;
          app1 = app\<lparr>tasks := tasks app @ [task]\<rparr>;
          app2 = app1\<lparr>nextID := nextID app1 + 1\<rparr>
      in (task, app2))"

text \<open>
  \<open>for i := range app.tasks\<close>: the loop of \<open>ToggleTask\<close> from index \<open>i\<close> on. The element
  is updated in place and the method returns at the first match.
\<close>

function ToggleTask_loop :: "nat \<Rightarrow> int64 \<Rightarrow> TodoApp \<Rightarrow> bool \<times> TodoApp" where
  "ToggleTask_loop i tid app =
     (if i < length (tasks app) then
        (if ID (tasks app ! i) = tid
         then (True, app\<lparr>tasks := (tasks app)
                 [i := (tasks app ! i)\<lparr>Completed := \<not> Completed (tasks app ! i)\<rparr>]\<rparr>)
         else ToggleTask_loop (Suc i) tid app)
      else (False, app))"
  by pat_completeness auto
termination
  by (relation "measure (\<lambda>(i, tid, app). length (tasks app) - i)") auto

definition ToggleTask :: "int64 \<Rightarrow> TodoApp \<Rightarrow> bool \<times> TodoApp" where
  "ToggleTask tid app = ToggleTask_loop 0 tid app"

text \<open>
  \<open>for i, task := range app.tasks\<close>: the loop of \<open>DeleteTask\<close> from index \<open>i\<close> on.
  \<open>append(app.tasks[:i], app.tasks[i+1:]...)\<close> is the slice without its \<open>i\<close>-th element.
\<close>

function DeleteTask_loop :: "nat \<Rightarrow> int64 \<Rightarrow> TodoApp \<Rightarrow> bool \<times> TodoApp" where
  "DeleteTask_loop i tid app =
     (if i < length (tasks app) then
        (if ID (tasks app ! i) = tid
         then (True, app\<lparr>tasks := take i (tasks app) @ drop (Suc i) (tasks app)\<rparr>)
         else DeleteTask_loop (Suc i) tid app)
      else (False, app))"
  by pat_completeness auto
termination
  by (relation "measure (\<lambda>(i, tid, app). length (tasks app) - i)") auto

definition DeleteTask :: "int64 \<Rightarrow> TodoApp \<Rightarrow> bool \<times> TodoApp" where
  "DeleteTask tid app = DeleteTask_loop 0 tid app"

declare ToggleTask_loop.simps [simp del]
declare DeleteTask_loop.simps [simp del]

definition example_app :: TodoApp where
  "example_app = \<lparr>tasks = [\<lparr>ID = 1, Title = ''a'', Completed = False\<rparr>,
                             \<lparr>ID = 2, Title = ''b'', Completed = True\<rparr>,
                             \<lparr>ID = 3, Title = ''c'', Completed = False\<rparr>], nextID = 4\<rparr>"

section \<open>Runs of the store\<close>

text \<open>
  The states the store can reach are those a sequence of calls produces from
  \<open>NewTodoApp\<close>. \<open>run\<close> applies a sequence of calls, \<open>creates\<close> counts its calls of
  \<open>AddTask\<close>, and \<open>assigned\<close> lists the IDs those calls returned, in order.
  \<open>churn c n\<close> is the sequence that, \<open>n\<close> times, creates a task and deletes it again,
  starting at counter \<open>c\<close>: it keeps the slice empty while the counter advances.
\<close>

datatype op = Create string | Toggle int64 | Delete int64

fun step :: "TodoApp \<Rightarrow> op \<Rightarrow> TodoApp" where
  "step app (Create title) = snd (AddTask title app)"
| "step app (Toggle tid) = snd (ToggleTask tid app)"
| "step app (Delete tid) = snd (DeleteTask tid app)"

fun run :: "TodoApp \<Rightarrow> op list \<Rightarrow> TodoApp" where
  "run app [] = app"
| "run app (x # xs) = run (step app x) xs"

fun creates :: "op list \<Rightarrow> nat" where
  "creates [] = 0"
| "creates (Create title # xs) = Suc (creates xs)"
| "creates (x # xs) = creates xs"

fun assigned :: "TodoApp \<Rightarrow> op list \<Rightarrow> int64 list" where
  "assigned app [] = []"
| "assigned app (Create title # xs) =
     ID (fst (AddTask title app)) # assigned (step app (Create title)) xs"
| "assigned app (x # xs) = assigned (step app x) xs"

fun churn :: "int64 \<Rightarrow> nat \<Rightarrow> op list" where
  "churn c 0 = []"
| "churn c (Suc n) = Create [] # Delete c # churn (c + 1) n"

definition store_inv :: "TodoApp \<Rightarrow> nat \<Rightarrow> bool" where
  "store_inv app m \<longleftrightarrow>
     sint (nextID app) = 1 + int m \<and>
     list_all (\<lambda>t. 0 <s ID t \<and> ID t <s nextID app) (tasks app) \<and>
     distinct (map ID (tasks app))"

section \<open>The request handlers (handlers/api.go, main.go)\<close>

text \<open>
  A request is its method and the path of its URL; the handlers under \<open>/api/tasks/\<close> read
  nothing else. A response is the status code, the content type and the body the handler
  writes: the line of text of \<open>http.Error\<close>, or the JSON object \<open>{"success": b}\<close>.

  A handler either returns a response and the store it leaves, or panics. Go's slice
  expressions \<open>s[lo:]\<close> and \<open>s[:hi]\<close> panic when the index is negative or beyond the
  length of the string; \<open>slice_from\<close> and \<open>slice_to\<close> return that panic as a value.
  Strings are byte strings, as in Go.
\<close>

record request =
  Method :: string
  Path :: string

datatype body = PlainText string | SuccessJSON bool

record response =
  StatusCode :: nat
  ContentType :: string
  Body :: body

datatype panic = SliceBoundsOutOfRange | IndexOutOfRange

definition http_Error :: "string \<Rightarrow> nat \<Rightarrow> response" where
  "http_Error msg code =
     \<lparr>StatusCode = code, ContentType = ''text/plain; charset=utf-8'',
      Body = PlainText (msg @ [CHR 0x0A])\<rparr>"

definition json_success :: "bool \<Rightarrow> response" where
  "json_success success =
     \<lparr>StatusCode = 200, ContentType = ''application/json'', Body = SuccessJSON success\<rparr>"

definition slice_from :: "string \<Rightarrow> int \<Rightarrow> panic + string" where
  "slice_from s lo =
     (if 0 \<le> lo \<and> lo \<le> int (length s) then Inr (drop (nat lo) s)
      else Inl SliceBoundsOutOfRange)"

definition slice_to :: "string \<Rightarrow> int \<Rightarrow> panic + string" where
  "slice_to s hi =
     (if 0 \<le> hi \<and> hi \<le> int (length s) then Inr (take (nat hi) s)
      else Inl SliceBoundsOutOfRange)"

text \<open>
  \<open>strconv.Atoi\<close> is the standard library's: an optional sign \<open>+\<close> or \<open>-\<close>, then one
  or more decimal digits and nothing else, and the value must fit a 64-bit \<open>int\<close>;
  otherwise it returns an error (\<open>None\<close>).
\<close>

definition is_digit :: "char \<Rightarrow> bool" where
  "is_digit c \<longleftrightarrow> c \<in> set ''0123456789''"

definition digit_val :: "char \<Rightarrow> int" where
  "digit_val c = of_char c - 48"

definition decimal :: "string \<Rightarrow> int" where
  "decimal ds = foldl (\<lambda>n c. n * 10 + digit_val c) 0 ds"

definition Atoi :: "string \<Rightarrow> int64 option" where
  "Atoi s =
     (let neg = (s \<noteq> [] \<and> hd s = CHR ''-'');
          ds = (if s \<noteq> [] \<and> (hd s = CHR ''-'' \<or> hd s = CHR ''+'') then tl s else s);
          n = decimal ds
      in if ds = [] \<or> \<not> list_all is_digit ds then None
         else if neg then (if n \<le> 9223372036854775808 then Some (- word_of_int n) else None)
         else (if n \<le> 9223372036854775807 then Some (word_of_int n) else None))"

definition ToggleTaskHandler :: "request \<Rightarrow> TodoApp \<Rightarrow> panic + response \<times> TodoApp" where
  "ToggleTaskHandler r app =
     (if Method r \<noteq> ''PUT'' then Inr (http_Error ''Method not allowed'' 405, app)
      else case slice_from (Path r) (int (length ''/api/tasks/'')) of
        Inl p \<Rightarrow> Inl p
      | Inr idStr \<Rightarrow>
          (case slice_to idStr (int (length idStr) - int (length ''/toggle'')) of
             Inl p \<Rightarrow> Inl p
           | Inr idStr \<Rightarrow>
               (case Atoi idStr of
                  None \<Rightarrow> Inr (http_Error ''Invalid task ID'' 400, app)
                | Some tid \<Rightarrow>
                    (let (success, app') = ToggleTask tid app
                     in Inr (json_success success, app')))))"

definition DeleteTaskHandler :: "request \<Rightarrow> TodoApp \<Rightarrow> panic + response \<times> TodoApp" where
  "DeleteTaskHandler r app =
     (if Method r \<noteq> ''DELETE'' then Inr (http_Error ''Method not allowed'' 405, app)
      else case slice_from (Path r) (int (length ''/api/tasks/'')) of
        Inl p \<Rightarrow> Inl p
      | Inr idStr \<Rightarrow>
          (case Atoi idStr of
             None \<Rightarrow> Inr (http_Error ''Invalid task ID'' 400, app)
           | Some tid \<Rightarrow>
               (let (success, app') = DeleteTask tid app
                in Inr (json_success success, app'))))"

text \<open>
  The function registered for the pattern \<open>/api/tasks/\<close> in \<open>main\<close>. It looks at the last
  seven bytes of the path to choose between the two handlers.
\<close>

datatype handler = ToggleHandler | DeleteHandler

definition tasks_subtree_route :: "request \<Rightarrow> panic + handler" where
  "tasks_subtree_route r =
     (case slice_from (Path r) (int (length (Path r)) - 7) of
        Inl p \<Rightarrow> Inl p
      | Inr suf \<Rightarrow> Inr (if suf = ''/toggle'' then ToggleHandler else DeleteHandler))"

definition tasks_subtree_handler :: "request \<Rightarrow> TodoApp \<Rightarrow> panic + response \<times> TodoApp" where
  "tasks_subtree_handler r app =
     (case tasks_subtree_route r of
        Inl p \<Rightarrow> Inl p
      | Inr ToggleHandler \<Rightarrow> ToggleTaskHandler r app
      | Inr DeleteHandler \<Rightarrow> DeleteTaskHandler r app)"

text \<open>
  The path of a request for the task with a given ID carries the ID in decimal, as the
  page's script builds it (\<open>'/api/tasks/' + id\<close>) and as \<open>strconv.Itoa\<close> prints it:
  a minus sign for a negative number, then the digits without leading zeros.
\<close>

function decimal_of :: "nat \<Rightarrow> string" where
  "decimal_of n =
     (if n < 10 then [''0123456789'' ! n]
      else decimal_of (n div 10) @ [''0123456789'' ! (n mod 10)])"
  by pat_completeness auto
termination
  by (relation "measure (\<lambda>n. n)") auto

definition Itoa :: "int64 \<Rightarrow> string" where
  "Itoa i =
     (if i <s 0 then CHR ''-'' # decimal_of (nat (- sint i)) else decimal_of (nat (sint i)))"

declare decimal_of.simps [simp del]

section \<open>The store in memory: slices, backing arrays and \<open>GetTasks\<close>\<close>

text \<open>
  What \<open>GetTasks\<close> promises is about storage: the slice it returns must not share its
  backing array with the store. For that the store is modelled a second time, over an
  explicit memory. The memory maps addresses to backing arrays and knows the next free
  address, \<open>lim\<close>; a slice is Go's slice header, the address of its backing array, the
  offset of its first element in it, its length and its capacity. \<open>elems\<close> reads the
  elements of a slice, and \<open>store_of\<close> reads the store of the first sections off the
  memory.

  \<open>go_make\<close>, \<open>go_copy\<close> and \<open>go_append\<close> are the built-ins \<open>make\<close>, \<open>copy\<close> and
  \<open>append\<close>. \<open>append\<close> writes in place when the capacity suffices and moves the elements
  to a new, larger array otherwise; how much larger is the runtime's choice, the parameter
  \<open>growcap\<close>, and the capacity is never less than the length needed. The appended
  elements are read before anything is written, as \<open>memmove\<close> does. \<open>subslice s lo hi\<close>
  is \<open>s[lo:hi]\<close>; the two uses in \<open>DeleteTask\<close> have \<open>lo \<le> hi \<le> len(s)\<close> by the loop
  condition.
\<close>

type_synonym addr = nat

record slice =
  ptr :: addr
  off :: nat
  len :: nat
  cap :: nat

record memory =
  arrays :: "addr \<Rightarrow> Task list"
  lim :: addr

record TodoApp_mem =
  tasks_hdr :: slice
  nextID_mem :: int64

definition zero_Task :: Task where
  "zero_Task = \<lparr>ID = 0, Title = [], Completed = False\<rparr>"

definition elems :: "memory \<Rightarrow> slice \<Rightarrow> Task list" where
  "elems m s = take (len s) (drop (off s) (arrays m (ptr s)))"

definition subslice :: "slice \<Rightarrow> nat \<Rightarrow> nat \<Rightarrow> slice" where
  "subslice s lo hi = \<lparr>ptr = ptr s, off = off s + lo, len = hi - lo, cap = cap s - lo\<rparr>"

definition go_make :: "nat \<Rightarrow> memory \<Rightarrow> slice \<times> memory" where
  "go_make n m =
     (\<lparr>ptr = lim m, off = 0, len = n, cap = n\<rparr>,
      m\<lparr>arrays := (arrays m)(lim m := replicate n zero_Task), lim := Suc (lim m)\<rparr>)"

definition write_at :: "slice \<Rightarrow> nat \<Rightarrow> Task list \<Rightarrow> memory \<Rightarrow> memory" where
  "write_at s k xs m =
     m\<lparr>arrays := (arrays m)
        (ptr s := take (off s + k) (arrays m (ptr s)) @ xs
                  @ drop (off s + k + length xs) (arrays m (ptr s)))\<rparr>"

definition go_copy :: "slice \<Rightarrow> slice \<Rightarrow> memory \<Rightarrow> memory" where
  "go_copy dst src m = write_at dst 0 (take (min (len dst) (len src)) (elems m src)) m"

definition go_append :: "(nat \<Rightarrow> nat) \<Rightarrow> slice \<Rightarrow> Task list \<Rightarrow> memory \<Rightarrow> slice \<times> memory" where
  "go_append growcap s xs m =
     (if len s + length xs \<le> cap s
      then (s\<lparr>len := len s + length xs\<rparr>, write_at s (len s) xs m)
      else (let n = len s + length xs; c = max n (growcap (cap s))
            in (\<lparr>ptr = lim m, off = 0, len = n, cap = c\<rparr>,
                m\<lparr>arrays := (arrays m)
                     (lim m := elems m s @ xs @ replicate (c - n) zero_Task),
                  lim := Suc (lim m)\<rparr>)))"

definition NewTodoApp_mem :: "memory \<Rightarrow> TodoApp_mem \<times> memory" where
  "NewTodoApp_mem m =
     (let (s, m1) = go_make 0 m in (\<lparr>tasks_hdr = s, nextID_mem = 1\<rparr>, m1))"

definition AddTask_mem ::
  "(nat \<Rightarrow> nat) \<Rightarrow> string \<Rightarrow> TodoApp_mem \<Rightarrow> memory \<Rightarrow> Task \<times> TodoApp_mem \<times> memory" where
  "AddTask_mem growcap title app m =
     (let task = \<lparr>ID = nextID_mem app, Title = title, Completed = False\<rparr>;
          (s, m1) = go_append growcap (tasks_hdr app) [task] m;
          app1 = app\<lparr>tasks_hdr := s\<rparr>;
          app2 = app1\<lparr>nextID_mem := nextID_mem app1 + 1\<rparr>
      in (task, app2, m1))"

definition GetTasks :: "TodoApp_mem \<Rightarrow> memory \<Rightarrow> slice \<times> memory" where
  "GetTasks app m =
     (let (tasksCopy, m1) = go_make (len (tasks_hdr app)) m;
          m2 = go_copy tasksCopy (tasks_hdr app) m1
      in (tasksCopy, m2))"

function ToggleTask_mem_loop ::
  "nat \<Rightarrow> int64 \<Rightarrow> TodoApp_mem \<Rightarrow> memory \<Rightarrow> bool \<times> TodoApp_mem \<times> memory" where
  "ToggleTask_mem_loop i tid app m =
     (if i < len (tasks_hdr app) then
        (if ID (elems m (tasks_hdr app) ! i) = tid
         then (True, app,
               write_at (tasks_hdr app) i
                 [(elems m (tasks_hdr app) ! i)
                    \<lparr>Completed := \<not> Completed (elems m (tasks_hdr app) ! i)\<rparr>] m)
         else ToggleTask_mem_loop (Suc i) tid app m)
      else (False, app, m))"
  by pat_completeness auto
termination
  by (relation "measure (\<lambda>(i, tid, app, m). len (tasks_hdr app) - i)") auto

definition ToggleTask_mem :: "int64 \<Rightarrow> TodoApp_mem \<Rightarrow> memory \<Rightarrow> bool \<times> TodoApp_mem \<times> memory" where
  "ToggleTask_mem tid app m = ToggleTask_mem_loop 0 tid app m"

function DeleteTask_mem_loop ::
  "(nat \<Rightarrow> nat) \<Rightarrow> nat \<Rightarrow> int64 \<Rightarrow> TodoApp_mem \<Rightarrow> memory \<Rightarrow> bool \<times> TodoApp_mem \<times> memory" where
  "DeleteTask_mem_loop growcap i tid app m =
     (if i < len (tasks_hdr app) then
        (if ID (elems m (tasks_hdr app) ! i) = tid
         then (let (s, m1) = go_append growcap (subslice (tasks_hdr app) 0 i)
                               (elems m (subslice (tasks_hdr app) (Suc i) (len (tasks_hdr app)))) m
               in (True, app\<lparr>tasks_hdr := s\<rparr>, m1))
         else DeleteTask_mem_loop growcap (Suc i) tid app m)
      else (False, app, m))"
  by pat_completeness auto
termination
  by (relation "measure (\<lambda>(g, i, tid, app, m). len (tasks_hdr app) - i)") auto

definition DeleteTask_mem ::
  "(nat \<Rightarrow> nat) \<Rightarrow> int64 \<Rightarrow> TodoApp_mem \<Rightarrow> memory \<Rightarrow> bool \<times> TodoApp_mem \<times> memory" where
  "DeleteTask_mem growcap tid app m = DeleteTask_mem_loop growcap 0 tid app m"

declare ToggleTask_mem_loop.simps [simp del]
declare DeleteTask_mem_loop.simps [simp del]

definition store_of :: "memory \<Rightarrow> TodoApp_mem \<Rightarrow> TodoApp" where
  "store_of m app = \<lparr>tasks = elems m (tasks_hdr app), nextID = nextID_mem app\<rparr>"

text \<open>
  A slice is well formed in a memory when its array is allocated and its length and
  capacity lie within the array.
\<close>

definition slice_wf :: "memory \<Rightarrow> slice \<Rightarrow> bool" where
  "slice_wf m s \<longleftrightarrow>
     ptr s < lim m \<and> len s \<le> cap s \<and> off s + cap s = length (arrays m (ptr s))"

text \<open>
  A caller's assignment \<open>s[i] = v\<close> to an element of a slice it holds, and a sequence of
  such assignments; an index beyond the length panics.
\<close>

definition slice_store :: "slice \<Rightarrow> nat \<Rightarrow> Task \<Rightarrow> memory \<Rightarrow> panic + memory" where
  "slice_store s i v m =
     (if i < len s then Inr (write_at s i [v] m) else Inl IndexOutOfRange)"

fun slice_stores :: "slice \<Rightarrow> (nat \<times> Task) list \<Rightarrow> memory \<Rightarrow> panic + memory" where
  "slice_stores s [] m = Inr m"
| "slice_stores s ((i, v) # ws) m =
     (case slice_store s i v m of Inl p \<Rightarrow> Inl p | Inr m' \<Rightarrow> slice_stores s ws m')"

text \<open>Runs of the store in memory, and what a step may touch.\<close>

fun step_mem :: "(nat \<Rightarrow> nat) \<Rightarrow> TodoApp_mem \<times> memory \<Rightarrow> op \<Rightarrow> TodoApp_mem \<times> memory" where
  "step_mem growcap (app, m) (Create title) = snd (AddTask_mem growcap title app m)"
| "step_mem growcap (app, m) (Toggle tid) = snd (ToggleTask_mem tid app m)"
| "step_mem growcap (app, m) (Delete tid) = snd (DeleteTask_mem growcap tid app m)"

fun run_mem :: "(nat \<Rightarrow> nat) \<Rightarrow> TodoApp_mem \<times> memory \<Rightarrow> op list \<Rightarrow> TodoApp_mem \<times> memory" where
  "run_mem growcap st [] = st"
| "run_mem growcap st (x # xs) = run_mem growcap (step_mem growcap st x) xs"

text \<open>
  \<open>frame m m' p\<close>: from \<open>m\<close> to \<open>m'\<close> nothing was freed, and of the arrays allocated in
  \<open>m\<close> only the one at \<open>p\<close> may have changed.
\<close>

definition frame :: "memory \<Rightarrow> memory \<Rightarrow> addr \<Rightarrow> bool" where
  "frame m m' p \<longleftrightarrow>
     lim m \<le> lim m' \<and> (\<forall>a. a < lim m \<and> a \<noteq> p \<longrightarrow> arrays m' a = arrays m a)"

text \<open>The store in memory after \<open>AddTask("a")\<close> and \<open>AddTask("b")\<close> on a new store.\<close>

definition example_mem_app :: TodoApp_mem where
  "example_mem_app = \<lparr>tasks_hdr = \<lparr>ptr = 2, off = 0, len = 2, cap = 2\<rparr>, nextID_mem = 3\<rparr>"

definition example_mem :: memory where
  "example_mem =
     \<lparr>arrays = (\<lambda>a. [])
        (0 := [],
         1 := [\<lparr>ID = 1, Title = ''a'', Completed = False\<rparr>],
         2 := [\<lparr>ID = 1, Title = ''a'', Completed = False\<rparr>,
               \<lparr>ID = 2, Title = ''b'', Completed = False\<rparr>]),
      lim = 3\<rparr>"

section \<open>The two scans\<close>

text \<open>
  Both loops stop at the first index whose task has the wanted ID, and run to the end of
  the slice when there is none.
\<close>

lemma first_index:
  "x \<in> f ` set xs \<Longrightarrow> \<exists>k<length xs. f (xs ! k) = x \<and> (\<forall>j<k. f (xs ! j) \<noteq> x)"
proof -
  assume "x \<in> f ` set xs"
  then obtain n where n: "n < length xs \<and> f (xs ! n) = x"
    by (auto simp: in_set_conv_nth)
  define k where "k = (LEAST n. n < length xs \<and> f (xs ! n) = x)"
  have k: "k < length xs \<and> f (xs ! k) = x"
    unfolding k_def using n by (rule LeastI)
  have "\<forall>j<k. f (xs ! j) \<noteq> x"
  proof (intro allI impI notI)
    fix j assume "j < k" and "f (xs ! j) = x"
    with k have "j < length xs \<and> f (xs ! j) = x" by simp
    then have "k \<le> j" unfolding k_def by (rule Least_le)
    with \<open>j < k\<close> show False by simp
  qed
  with k show ?thesis by blast
qed

lemma ToggleTask_loop_absent:
  "(\<forall>j. i \<le> j \<and> j < length (tasks app) \<longrightarrow> ID (tasks app ! j) \<noteq> tid)
   \<Longrightarrow> ToggleTask_loop i tid app = (False, app)"
proof (induction i tid app rule: ToggleTask_loop.induct)
  case (1 i tid app)
  show ?case
  proof (cases "i < length (tasks app)")
    case True
    with "1.prems" have ne: "ID (tasks app ! i) \<noteq> tid" by simp
    from "1.prems" have "\<forall>j. Suc i \<le> j \<and> j < length (tasks app) \<longrightarrow> ID (tasks app ! j) \<noteq> tid"
      by simp
    with "1.IH" True ne have "ToggleTask_loop (Suc i) tid app = (False, app)" by simp
    with True ne show ?thesis by (subst ToggleTask_loop.simps) simp
  next
    case False
    then show ?thesis by (subst ToggleTask_loop.simps) simp
  qed
qed

lemma ToggleTask_loop_first:
  "i \<le> k \<Longrightarrow> k < length (tasks app) \<Longrightarrow> ID (tasks app ! k) = tid
   \<Longrightarrow> (\<forall>j. i \<le> j \<and> j < k \<longrightarrow> ID (tasks app ! j) \<noteq> tid)
   \<Longrightarrow> ToggleTask_loop i tid app =
       (True, app\<lparr>tasks := (tasks app)
          [k := (tasks app ! k)\<lparr>Completed := \<not> Completed (tasks app ! k)\<rparr>]\<rparr>)"
proof (induction i tid app rule: ToggleTask_loop.induct)
  case (1 i tid app)
  show ?case
  proof (cases "i = k")
    case True
    with "1.prems" show ?thesis by (subst ToggleTask_loop.simps) simp
  next
    case False
    with "1.prems" have lt: "i < k" and ne: "ID (tasks app ! i) \<noteq> tid" by auto
    from lt "1.prems" have il: "i < length (tasks app)" by simp
    from "1.prems" have "\<forall>j. Suc i \<le> j \<and> j < k \<longrightarrow> ID (tasks app ! j) \<noteq> tid" by simp
    with "1.IH" [OF il ne] lt "1.prems"
    have "ToggleTask_loop (Suc i) tid app =
       (True, app\<lparr>tasks := (tasks app)
          [k := (tasks app ! k)\<lparr>Completed := \<not> Completed (tasks app ! k)\<rparr>]\<rparr>)"
      by simp
    with il ne show ?thesis by (subst ToggleTask_loop.simps) simp
  qed
qed

lemma DeleteTask_loop_absent:
  "(\<forall>j. i \<le> j \<and> j < length (tasks app) \<longrightarrow> ID (tasks app ! j) \<noteq> tid)
   \<Longrightarrow> DeleteTask_loop i tid app = (False, app)"
proof (induction i tid app rule: DeleteTask_loop.induct)
  case (1 i tid app)
  show ?case
  proof (cases "i < length (tasks app)")
    case True
    with "1.prems" have ne: "ID (tasks app ! i) \<noteq> tid" by simp
    from "1.prems" have "\<forall>j. Suc i \<le> j \<and> j < length (tasks app) \<longrightarrow> ID (tasks app ! j) \<noteq> tid"
      by simp
    with "1.IH" True ne have "DeleteTask_loop (Suc i) tid app = (False, app)" by simp
    with True ne show ?thesis by (subst DeleteTask_loop.simps) simp
  next
    case False
    then show ?thesis by (subst DeleteTask_loop.simps) simp
  qed
qed

lemma DeleteTask_loop_first:
  "i \<le> k \<Longrightarrow> k < length (tasks app) \<Longrightarrow> ID (tasks app ! k) = tid
   \<Longrightarrow> (\<forall>j. i \<le> j \<and> j < k \<longrightarrow> ID (tasks app ! j) \<noteq> tid)
   \<Longrightarrow> DeleteTask_loop i tid app =
       (True, app\<lparr>tasks := take k (tasks app) @ drop (Suc k) (tasks app)\<rparr>)"
proof (induction i tid app rule: DeleteTask_loop.induct)
  case (1 i tid app)
  show ?case
  proof (cases "i = k")
    case True
    with "1.prems" show ?thesis by (subst DeleteTask_loop.simps) simp
  next
    case False
    with "1.prems" have lt: "i < k" and ne: "ID (tasks app ! i) \<noteq> tid" by auto
    from lt "1.prems" have il: "i < length (tasks app)" by simp
    from "1.prems" have "\<forall>j. Suc i \<le> j \<and> j < k \<longrightarrow> ID (tasks app ! j) \<noteq> tid" by simp
    with "1.IH" [OF il ne] lt "1.prems"
    have "DeleteTask_loop (Suc i) tid app =
       (True, app\<lparr>tasks := take k (tasks app) @ drop (Suc k) (tasks app)\<rparr>)"
      by simp
    with il ne show ?thesis by (subst DeleteTask_loop.simps) simp
  qed
qed

lemma ToggleTask_absent:
  "tid \<notin> ID ` set (tasks app) \<Longrightarrow> ToggleTask tid app = (False, app)"
  unfolding ToggleTask_def by (rule ToggleTask_loop_absent) auto

lemma DeleteTask_absent:
  "tid \<notin> ID ` set (tasks app) \<Longrightarrow> DeleteTask tid app = (False, app)"
  unfolding DeleteTask_def by (rule DeleteTask_loop_absent) auto

lemma ToggleTask_present:
  assumes "tid \<in> ID ` set (tasks app)"
  shows "\<exists>k<length (tasks app). ID (tasks app ! k) = tid \<and> (\<forall>j<k. ID (tasks app ! j) \<noteq> tid) \<and>
           ToggleTask tid app = (True, app\<lparr>tasks := (tasks app)
              [k := (tasks app ! k)\<lparr>Completed := \<not> Completed (tasks app ! k)\<rparr>]\<rparr>)"
proof -
  from first_index [OF assms] obtain k where
    k: "k < length (tasks app)" "ID (tasks app ! k) = tid" "\<forall>j<k. ID (tasks app ! j) \<noteq> tid"
    by blast
  then have "ToggleTask_loop 0 tid app = (True, app\<lparr>tasks := (tasks app)
              [k := (tasks app ! k)\<lparr>Completed := \<not> Completed (tasks app ! k)\<rparr>]\<rparr>)"
    by (intro ToggleTask_loop_first) auto
  with k show ?thesis unfolding ToggleTask_def by blast
qed

lemma DeleteTask_present:
  assumes "tid \<in> ID ` set (tasks app)"
  shows "\<exists>k<length (tasks app). ID (tasks app ! k) = tid \<and> (\<forall>j<k. ID (tasks app ! j) \<noteq> tid) \<and>
           DeleteTask tid app = (True, app\<lparr>tasks := take k (tasks app) @ drop (Suc k) (tasks app)\<rparr>)"
proof -
  from first_index [OF assms] obtain k where
    k: "k < length (tasks app)" "ID (tasks app ! k) = tid" "\<forall>j<k. ID (tasks app ! j) \<noteq> tid"
    by blast
  then have "DeleteTask_loop 0 tid app =
      (True, app\<lparr>tasks := take k (tasks app) @ drop (Suc k) (tasks app)\<rparr>)"
    by (intro DeleteTask_loop_first) auto
  with k show ?thesis unfolding DeleteTask_def by blast
qed
lemma zip_update_diff:
  "length (filter (\<lambda>(a, b). a \<noteq> b) (zip xs (xs[k := v]))) \<le> 1"
proof (induction xs arbitrary: k)
  case Nil
  then show ?case by simp
next
  case (Cons x xs)
  have same: "filter (\<lambda>(a, b). a \<noteq> b) (zip xs xs) = []"
    by (induction xs) auto
  show ?case
  proof (cases k)
    case 0
    then show ?thesis using same by simp
  next
    case (Suc m)
    then show ?thesis using Cons.IH [of m] by simp
  qed
qed

section \<open>The methods of the store\<close>

text \<open>
  Claim C2. In every store and for every title, the empty one included, \<open>AddTask\<close> returns
  the task whose ID is the store's current \<open>nextID\<close>, whose title is the given string and
  whose \<open>Completed\<close> flag is false; the store it leaves holds exactly that task after the
  old ones, and its \<open>nextID\<close> is the old one plus one (Go's \<open>++\<close> on a 64-bit \<open>int\<close>).
  The method has no error branch: it is a total function of the title and the store.
\<close>

theorem AddTask_appends:
  "fst (AddTask title app) = \<lparr>ID = nextID app, Title = title, Completed = False\<rparr> \<and>
   tasks (snd (AddTask title app)) = tasks app @ [fst (AddTask title app)] \<and>
   nextID (snd (AddTask title app)) = nextID app + 1"
  by (simp add: AddTask_def Let_def)

text \<open>
  Claim C3. When some task of the store has the given ID, \<open>DeleteTask\<close> returns true and
  removes the entry at the first index \<open>k\<close> with that ID and nothing else: the tasks before
  \<open>k\<close> and the tasks after \<open>k\<close> stay as they are and in their order, the slice is one
  shorter, and \<open>nextID\<close> is untouched. When no task has the ID, it returns false and the
  store is the same.
\<close>

theorem DeleteTask_removes_one:
  "(tid \<in> ID ` set (tasks app) \<longrightarrow>
      (\<exists>k<length (tasks app). ID (tasks app ! k) = tid \<and> (\<forall>j<k. ID (tasks app ! j) \<noteq> tid) \<and>
         DeleteTask tid app =
           (True, app\<lparr>tasks := take k (tasks app) @ drop (Suc k) (tasks app)\<rparr>)) \<and>
      Suc (length (tasks (snd (DeleteTask tid app)))) = length (tasks app)) \<and>
   (tid \<notin> ID ` set (tasks app) \<longrightarrow> DeleteTask tid app = (False, app))"
proof (intro conjI impI)
  assume "tid \<in> ID ` set (tasks app)"
  from DeleteTask_present [OF this] obtain k where
    k: "k < length (tasks app)" "ID (tasks app ! k) = tid" "\<forall>j<k. ID (tasks app ! j) \<noteq> tid"
       "DeleteTask tid app =
           (True, app\<lparr>tasks := take k (tasks app) @ drop (Suc k) (tasks app)\<rparr>)"
    by blast
  then show "\<exists>k<length (tasks app). ID (tasks app ! k) = tid \<and> (\<forall>j<k. ID (tasks app ! j) \<noteq> tid) \<and>
         DeleteTask tid app =
           (True, app\<lparr>tasks := take k (tasks app) @ drop (Suc k) (tasks app)\<rparr>)"
    by blast
  from k show "Suc (length (tasks (snd (DeleteTask tid app)))) = length (tasks app)"
    by simp
next
  assume "tid \<notin> ID ` set (tasks app)"
  then show "DeleteTask tid app = (False, app)" by (rule DeleteTask_absent)
qed

theorem DeleteTask_removes_one_witness:
  "2 \<in> ID ` set (tasks example_app) \<and>
   DeleteTask 2 example_app =
     (True, \<lparr>tasks = [\<lparr>ID = 1, Title = ''a'', Completed = False\<rparr>,
                      \<lparr>ID = 3, Title = ''c'', Completed = False\<rparr>], nextID = 4\<rparr>) \<and>
   999 \<notin> ID ` set (tasks example_app) \<and>
   DeleteTask 999 example_app = (False, example_app)"
  using DeleteTask_removes_one [of 2 example_app] DeleteTask_removes_one [of 999 example_app]
  by (auto simp: example_app_def less_Suc_eq)

text \<open>
  Claim C4. When some task of the store has the given ID, \<open>ToggleTask\<close> returns true and
  negates the \<open>Completed\<close> flag of the task at the first index \<open>k\<close> with that ID; its ID
  and title, every other task and \<open>nextID\<close> stay as they are. When no task has the ID, it
  returns false and the store is the same. In both cases the slice keeps its length and at
  most one position of it differs after the call.
\<close>

theorem ToggleTask_flips_one:
  "(tid \<in> ID ` set (tasks app) \<longrightarrow>
      (\<exists>k<length (tasks app). ID (tasks app ! k) = tid \<and> (\<forall>j<k. ID (tasks app ! j) \<noteq> tid) \<and>
         ToggleTask tid app = (True, app\<lparr>tasks := (tasks app)
            [k := (tasks app ! k)\<lparr>Completed := \<not> Completed (tasks app ! k)\<rparr>]\<rparr>))) \<and>
   (tid \<notin> ID ` set (tasks app) \<longrightarrow> ToggleTask tid app = (False, app)) \<and>
   length (tasks (snd (ToggleTask tid app))) = length (tasks app) \<and>
   length (filter (\<lambda>(old, new). old \<noteq> new)
      (zip (tasks app) (tasks (snd (ToggleTask tid app))))) \<le> 1"
proof (cases "tid \<in> ID ` set (tasks app)")
  case True
  from ToggleTask_present [OF this] obtain k where
    k: "k < length (tasks app)" "ID (tasks app ! k) = tid" "\<forall>j<k. ID (tasks app ! j) \<noteq> tid"
       "ToggleTask tid app = (True, app\<lparr>tasks := (tasks app)
            [k := (tasks app ! k)\<lparr>Completed := \<not> Completed (tasks app ! k)\<rparr>]\<rparr>)"
    by blast
  have "length (filter (\<lambda>(old, new). old \<noteq> new)
      (zip (tasks app) (tasks (snd (ToggleTask tid app))))) \<le> 1"
    using k(4) zip_update_diff [of "tasks app" k] by simp
  with True k show ?thesis by auto
next
  case False
  have same: "filter (\<lambda>(a, b). a \<noteq> b) (zip xs xs) = []" for xs :: "Task list"
    by (induction xs) auto
  from False have "ToggleTask tid app = (False, app)" by (rule ToggleTask_absent)
  with False show ?thesis by (simp add: same)
qed

theorem ToggleTask_flips_one_witness:
  "2 \<in> ID ` set (tasks example_app) \<and>
   ToggleTask 2 example_app =
     (True, \<lparr>tasks = [\<lparr>ID = 1, Title = ''a'', Completed = False\<rparr>,
                      \<lparr>ID = 2, Title = ''b'', Completed = False\<rparr>,
                      \<lparr>ID = 3, Title = ''c'', Completed = False\<rparr>], nextID = 4\<rparr>) \<and>
   999 \<notin> ID ` set (tasks example_app) \<and>
   ToggleTask 999 example_app = (False, example_app)"
  using ToggleTask_flips_one [of 2 example_app] ToggleTask_flips_one [of 999 example_app]
  by (auto simp: example_app_def less_Suc_eq)

text \<open>
  Claim C6. For the ID of a task in the store, two calls of \<open>ToggleTask\<close> in a row both
  return true, and the second one leaves exactly the store the first one started from.
\<close>

theorem ToggleTask_twice:
  assumes "tid \<in> ID ` set (tasks app)"
  shows "fst (ToggleTask tid app) \<and>
         ToggleTask tid (snd (ToggleTask tid app)) = (True, app)"
proof -
  let ?flip = "\<lambda>t::Task. t\<lparr>Completed := \<not> Completed t\<rparr>"
  from ToggleTask_present [OF assms] obtain k where
    k: "k < length (tasks app)" "ID (tasks app ! k) = tid" "\<forall>j<k. ID (tasks app ! j) \<noteq> tid"
       "ToggleTask tid app = (True, app\<lparr>tasks := (tasks app)[k := ?flip (tasks app ! k)]\<rparr>)"
    by blast
  define app1 where "app1 = app\<lparr>tasks := (tasks app)[k := ?flip (tasks app ! k)]\<rparr>"
  have len: "k < length (tasks app1)" using k(1) by (simp add: app1_def)
  have idk: "ID (tasks app1 ! k) = tid" using k(1,2) by (simp add: app1_def)
  have before: "\<forall>j. 0 \<le> j \<and> j < k \<longrightarrow> ID (tasks app1 ! j) \<noteq> tid"
    using k(1,3) by (simp add: app1_def)
  have "ToggleTask_loop 0 tid app1 =
      (True, app1\<lparr>tasks := (tasks app1)[k := ?flip (tasks app1 ! k)]\<rparr>)"
    using len idk before by (intro ToggleTask_loop_first) auto
  also have "app1\<lparr>tasks := (tasks app1)[k := ?flip (tasks app1 ! k)]\<rparr> = app"
    using k(1) by (simp add: app1_def)
  finally have "ToggleTask tid app1 = (True, app)" by (simp add: ToggleTask_def)
  with k(4) show ?thesis by (simp add: app1_def)
qed

theorem ToggleTask_twice_witness:
  "2 \<in> ID ` set (tasks example_app) \<and> fst (ToggleTask 2 example_app) \<and>
   ToggleTask 2 (snd (ToggleTask 2 example_app)) = (True, example_app)"
proof -
  have h: "2 \<in> ID ` set (tasks example_app)" by (simp add: example_app_def)
  from ToggleTask_twice [OF h] h show ?thesis by simp
qed

text \<open>
  Claim C9. In every store and for every ID, the boolean of \<open>ToggleTask\<close> and the boolean
  of \<open>DeleteTask\<close> are the same: each is true exactly when the ID is among the IDs of the
  tasks in the store.
\<close>

theorem ToggleTask_DeleteTask_found:
  "fst (ToggleTask tid app) = (tid \<in> ID ` set (tasks app)) \<and>
   fst (DeleteTask tid app) = (tid \<in> ID ` set (tasks app)) \<and>
   fst (ToggleTask tid app) = fst (DeleteTask tid app)"
proof (cases "tid \<in> ID ` set (tasks app)")
  case True
  from ToggleTask_present [OF True] have "fst (ToggleTask tid app)" by auto
  moreover from DeleteTask_present [OF True] have "fst (DeleteTask tid app)" by auto
  ultimately show ?thesis using True by simp
next
  case False
  then show ?thesis by (simp add: ToggleTask_absent DeleteTask_absent)
qed

section \<open>The ID counter along a run\<close>

lemma sint_succ_int64:
  fixes x :: int64
  assumes "sint x < 9223372036854775807"
  shows "sint (x + 1) = sint x + 1"
proof -
  have lo: "- (2 ^ 63) \<le> sint x" using sint_ge [of x] by simp
  have "sint (x + 1) = signed_take_bit 63 (sint x + 1)"
    by (simp add: sint_word_ariths)
  also have "\<dots> = sint x + 1"
    using lo assms by (intro signed_take_bit_int_eq_self) auto
  finally show ?thesis .
qed

lemma run_append: "run app (xs @ ys) = run (run app xs) ys"
  by (induction xs arbitrary: app) auto

lemma ToggleTask_cases:
  "ToggleTask tid app = (False, app) \<or>
   (\<exists>k<length (tasks app). ToggleTask tid app = (True, app\<lparr>tasks := (tasks app)
            [k := (tasks app ! k)\<lparr>Completed := \<not> Completed (tasks app ! k)\<rparr>]\<rparr>))"
  using ToggleTask_present [of tid app] ToggleTask_absent [of tid app] by blast

lemma DeleteTask_cases:
  "DeleteTask tid app = (False, app) \<or>
   (\<exists>k<length (tasks app). DeleteTask tid app =
       (True, app\<lparr>tasks := take k (tasks app) @ drop (Suc k) (tasks app)\<rparr>))"
  using DeleteTask_present [of tid app] DeleteTask_absent [of tid app] by blast

lemma map_ID_flip:
  "k < length ts \<Longrightarrow> map ID (ts[k := (ts ! k)\<lparr>Completed := b\<rparr>]) = map ID ts"
  by (simp add: map_update list_update_same_conv)

lemma ToggleTask_IDs: "map ID (tasks (snd (ToggleTask tid app))) = map ID (tasks app)"
  using ToggleTask_cases [of tid app] by (auto simp: map_ID_flip)

lemma ToggleTask_nextID: "nextID (snd (ToggleTask tid app)) = nextID app"
  using ToggleTask_cases [of tid app] by auto

lemma DeleteTask_nextID: "nextID (snd (DeleteTask tid app)) = nextID app"
  using DeleteTask_cases [of tid app] by auto

lemma DeleteTask_tasks:
  "\<exists>k. tasks (snd (DeleteTask tid app)) = take k (tasks app) @ drop k (tasks app) \<or>
       tasks (snd (DeleteTask tid app)) = take k (tasks app) @ drop (Suc k) (tasks app)"
  using DeleteTask_cases [of tid app] by auto

lemma distinct_take_drop:
  assumes "distinct (map f xs)"
  shows "distinct (map f (take k xs @ drop (Suc k) xs))"
proof -
  have "map f (take k xs @ drop (Suc k) xs) = take k (map f xs) @ drop (Suc k) (map f xs)"
    by (simp add: take_map drop_map)
  moreover have "distinct (take k (map f xs) @ drop (Suc k) (map f xs))"
    using assms set_take_disj_set_drop_if_distinct [of "map f xs" k "Suc k"] by simp
  ultimately show ?thesis by simp
qed

lemma store_inv_AddTask:
  assumes "store_inv app m" and "m < 9223372036854775806"
  shows "store_inv (snd (AddTask title app)) (Suc m)"
proof -
  from assms(1) have n: "sint (nextID app) = 1 + int m"
    and a: "list_all (\<lambda>t. 0 <s ID t \<and> ID t <s nextID app) (tasks app)"
    and d: "distinct (map ID (tasks app))"
    by (simp_all add: store_inv_def)
  from assms(2) n have small: "sint (nextID app) < 9223372036854775807" by linarith
  then have s: "sint (nextID app + 1) = sint (nextID app) + 1" by (rule sint_succ_int64)
  have fresh: "nextID app \<notin> ID ` set (tasks app)"
    using a by (auto simp: list_all_iff word_sless_alt)
  have "list_all (\<lambda>t. 0 <s ID t \<and> ID t <s nextID app + 1) (tasks app)"
    using a s by (auto simp: list_all_iff word_sless_alt)
  moreover have "0 <s nextID app \<and> nextID app <s nextID app + 1"
    using n s by (simp add: word_sless_alt)
  ultimately show ?thesis
    using n s d fresh by (simp add: store_inv_def AddTask_def Let_def)
qed

lemma store_inv_ToggleTask:
  assumes "store_inv app m"
  shows "store_inv (snd (ToggleTask tid app)) m"
proof -
  have "list_all (\<lambda>t. 0 <s ID t \<and> ID t <s c) ts \<longleftrightarrow> list_all (\<lambda>i. 0 <s i \<and> i <s c) (map ID ts)"
    for c and ts :: "Task list"
    by (simp add: list_all_iff)
  with assms show ?thesis
    by (simp add: store_inv_def ToggleTask_IDs ToggleTask_nextID)
qed

lemma store_inv_DeleteTask:
  assumes "store_inv app m"
  shows "store_inv (snd (DeleteTask tid app)) m"
proof -
  from DeleteTask_tasks [of tid app] obtain k where
    k: "tasks (snd (DeleteTask tid app)) = take k (tasks app) @ drop k (tasks app) \<or>
        tasks (snd (DeleteTask tid app)) = take k (tasks app) @ drop (Suc k) (tasks app)"
    by blast
  from assms have a: "list_all (\<lambda>t. 0 <s ID t \<and> ID t <s nextID app) (tasks app)"
    and d: "distinct (map ID (tasks app))" and n: "sint (nextID app) = 1 + int m"
    by (simp_all add: store_inv_def)
  have sub: "set (tasks (snd (DeleteTask tid app))) \<subseteq> set (tasks app)"
    using k by (auto dest: in_set_takeD in_set_dropD)
  have d': "distinct (map ID (tasks (snd (DeleteTask tid app))))"
    using k d distinct_take_drop [of ID "tasks app" k] by auto
  from a sub have "list_all (\<lambda>t. 0 <s ID t \<and> ID t <s nextID app) (tasks (snd (DeleteTask tid app)))"
    by (auto simp: list_all_iff)
  with d' n show ?thesis by (simp add: store_inv_def DeleteTask_nextID)
qed

lemma store_inv_run:
  "store_inv app m \<Longrightarrow> m + creates ops < 9223372036854775807 \<Longrightarrow>
   store_inv (run app ops) (m + creates ops) \<and>
   map sint (assigned app ops) = map int [Suc m ..< Suc (m + creates ops)]"
proof (induction ops arbitrary: app m)
  case Nil
  then show ?case by simp
next
  case (Cons x ops)
  show ?case
  proof (cases x)
    case (Create title)
    from Cons.prems(2) Create have b: "m < 9223372036854775806" and b': "Suc m + creates ops < 9223372036854775807"
      by simp_all
    from store_inv_AddTask [OF Cons.prems(1) b]
    have inv: "store_inv (snd (AddTask title app)) (Suc m)" .
    from Cons.prems(1) have "sint (nextID app) = int (Suc m)" by (simp add: store_inv_def)
    then have hd: "sint (ID (fst (AddTask title app))) = int (Suc m)"
      by (simp add: AddTask_def Let_def)
    have "[Suc m ..< Suc (Suc m + creates ops)] = Suc m # [Suc (Suc m) ..< Suc (Suc m + creates ops)]"
      by (simp add: upt_conv_Cons)
    with Cons.IH [OF inv b'] hd Create show ?thesis by simp
  next
    case (Toggle tid)
    with Cons.IH [OF store_inv_ToggleTask [OF Cons.prems(1)], of tid] Cons.prems(2)
    show ?thesis by simp
  next
    case (Delete tid)
    with Cons.IH [OF store_inv_DeleteTask [OF Cons.prems(1)], of tid] Cons.prems(2)
    show ?thesis by simp
  qed
qed

lemma store_inv_New: "store_inv NewTodoApp 0"
  by (simp add: store_inv_def NewTodoApp_def)

lemma run_churn:
  "run \<lparr>tasks = [], nextID = c\<rparr> (churn c n) = \<lparr>tasks = [], nextID = c + of_nat n\<rparr>"
proof (induction n arbitrary: c)
  case 0
  then show ?case by simp
next
  case (Suc n)
  have "DeleteTask c \<lparr>tasks = [\<lparr>ID = c, Title = [], Completed = False\<rparr>], nextID = c + 1\<rparr>
      = (True, \<lparr>tasks = [], nextID = c + 1\<rparr>)"
    by (simp add: DeleteTask_def DeleteTask_loop.simps)
  then show ?case using Suc [of "c + 1"]
    by (simp add: AddTask_def Let_def add.assoc)
qed

lemma creates_churn: "creates (churn c n) = n"
  by (induction n arbitrary: c) auto

lemma creates_append: "creates (xs @ ys) = creates xs + creates ys"
  by (induction xs rule: creates.induct) auto

text \<open>
  Claim C1, as amended. Along every run from \<open>NewTodoApp\<close> with fewer than
  \<open>2^63 - 1 = 9223372036854775807\<close> calls of \<open>AddTask\<close>: the IDs of the tasks in the store
  are pairwise different, each is positive and below \<open>nextID\<close> (as signed integers);
  \<open>nextID\<close> is one plus the number of \<open>AddTask\<close> calls made so far, whatever calls of
  \<open>ToggleTask\<close> and \<open>DeleteTask\<close> lie between them; and the IDs the \<open>AddTask\<close> calls
  returned are \<open>1, 2, 3, \<dots>\<close> in order, so none is handed out twice, deleted or not.
  In every store, \<open>AddTask\<close> adds one to \<open>nextID\<close> in 64-bit arithmetic and the other two
  methods leave it alone.
\<close>

theorem store_ids_below_counter:
  assumes "creates ops < 9223372036854775807"
  shows "distinct (map ID (tasks (run NewTodoApp ops))) \<and>
         list_all (\<lambda>t. 0 <s ID t \<and> ID t <s nextID (run NewTodoApp ops))
           (tasks (run NewTodoApp ops)) \<and>
         sint (nextID (run NewTodoApp ops)) = 1 + int (creates ops) \<and>
         map sint (assigned NewTodoApp ops) = map int [1 ..< Suc (creates ops)] \<and>
         distinct (assigned NewTodoApp ops) \<and>
         nextID (step app (Create title)) = nextID app + 1 \<and>
         nextID (step app (Toggle tid)) = nextID app \<and>
         nextID (step app (Delete tid)) = nextID app"
proof -
  from store_inv_run [OF store_inv_New, of ops] assms
  have inv: "store_inv (run NewTodoApp ops) (creates ops)"
    and as: "map sint (assigned NewTodoApp ops) = map int [1 ..< Suc (creates ops)]"
    by simp_all
  have "distinct (map int [1 ..< Suc (creates ops)])"
    by (simp add: distinct_map inj_on_def)
  with as have "distinct (map sint (assigned NewTodoApp ops))" by simp
  then have "distinct (assigned NewTodoApp ops)" by (simp add: distinct_map)
  moreover have "nextID (step app (Create title)) = nextID app + 1"
    by (simp add: AddTask_def Let_def)
  ultimately show ?thesis
    using inv as by (simp add: store_inv_def ToggleTask_nextID DeleteTask_nextID)
qed

theorem store_ids_below_counter_witness:
  "creates [Create ''a'', Create ''b'', Toggle 1, Delete 1, Create ''c''] < 9223372036854775807 \<and>
   run NewTodoApp [Create ''a'', Create ''b'', Toggle 1, Delete 1, Create ''c''] =
     \<lparr>tasks = [\<lparr>ID = 2, Title = ''b'', Completed = False\<rparr>,
               \<lparr>ID = 3, Title = ''c'', Completed = False\<rparr>], nextID = 4\<rparr> \<and>
   distinct (map ID (tasks (run NewTodoApp
     [Create ''a'', Create ''b'', Toggle 1, Delete 1, Create ''c'']))) \<and>
   sint (nextID (run NewTodoApp
     [Create ''a'', Create ''b'', Toggle 1, Delete 1, Create ''c''])) = 4 \<and>
   map sint (assigned NewTodoApp
     [Create ''a'', Create ''b'', Toggle 1, Delete 1, Create ''c'']) = [1, 2, 3]"
proof -
  have r: "run NewTodoApp [Create ''a'', Create ''b'', Toggle 1, Delete 1, Create ''c''] =
     \<lparr>tasks = [\<lparr>ID = 2, Title = ''b'', Completed = False\<rparr>,
               \<lparr>ID = 3, Title = ''c'', Completed = False\<rparr>], nextID = 4\<rparr>"
    by (simp add: NewTodoApp_def AddTask_def Let_def ToggleTask_def DeleteTask_def
        ToggleTask_loop.simps DeleteTask_loop.simps)
  have c: "creates [Create ''a'', Create ''b'', Toggle 1, Delete 1, Create ''c''] < 9223372036854775807"
    by simp
  from store_ids_below_counter [OF c] r c show ?thesis
    by (simp add: upt_conv_Cons)
qed

text \<open>
  Without the bound the claim fails. Creating and deleting a task \<open>2^63 - 2\<close> times and
  then creating one more leaves a store whose only task has ID \<open>2^63 - 1\<close>, the largest
  \<open>int\<close>, while \<open>nextID\<close> has wrapped around to \<open>- 2^63\<close>: the ID of a live task is not
  below \<open>nextID\<close>.
\<close>

theorem store_ids_below_counter_counterexample:
  "creates (churn 1 9223372036854775806 @ [Create []]) = 9223372036854775807 \<and>
   tasks (run NewTodoApp (churn 1 9223372036854775806 @ [Create []])) =
     [\<lparr>ID = 9223372036854775807, Title = [], Completed = False\<rparr>] \<and>
   nextID (run NewTodoApp (churn 1 9223372036854775806 @ [Create []])) = - 9223372036854775808 \<and>
   \<not> (ID (hd (tasks (run NewTodoApp (churn 1 9223372036854775806 @ [Create []]))))
        <s nextID (run NewTodoApp (churn 1 9223372036854775806 @ [Create []])))"
proof -
  have "run NewTodoApp (churn 1 9223372036854775806 @ [Create []]) =
      \<lparr>tasks = [\<lparr>ID = 9223372036854775807, Title = [], Completed = False\<rparr>],
       nextID = - 9223372036854775808\<rparr>"
    unfolding run_append NewTodoApp_def run_churn
    by (simp add: AddTask_def Let_def)
  moreover have "creates (churn 1 9223372036854775806 @ [Create []]) = 9223372036854775807"
    by (simp add: creates_append creates_churn)
  ultimately show ?thesis by (simp add: word_sless_alt)
qed

section \<open>Routing under \<open>/api/tasks/\<close>\<close>

lemma slice_from_ok: "n \<le> length s \<Longrightarrow> slice_from s (int (length s) - int n) = Inr (drop (length s - n) s)"
  by (simp add: slice_from_def nat_diff_distrib')

lemma prefix_tasks_length: "prefix ''/api/tasks/'' p \<Longrightarrow> 11 \<le> length p"
  by (auto simp: prefix_def)

text \<open>
  Claim C7. For a request whose path begins with \<open>/api/tasks/\<close>, whatever its method,
  the function registered for the subtree chooses \<open>ToggleTaskHandler\<close> exactly when the last
  seven bytes of the path are \<open>/toggle\<close>, and \<open>DeleteTaskHandler\<close> for every other path;
  the request is then handled by the handler chosen.
\<close>

theorem tasks_subtree_routing:
  assumes "prefix ''/api/tasks/'' (Path r)"
  shows "(tasks_subtree_route (r\<lparr>Method := m\<rparr>) = Inr ToggleHandler \<longleftrightarrow>
            drop (length (Path r) - 7) (Path r) = ''/toggle'') \<and>
         (tasks_subtree_route (r\<lparr>Method := m\<rparr>) = Inr DeleteHandler \<longleftrightarrow>
            drop (length (Path r) - 7) (Path r) \<noteq> ''/toggle'') \<and>
         tasks_subtree_handler r app =
           (if drop (length (Path r) - 7) (Path r) = ''/toggle''
            then ToggleTaskHandler r app else DeleteTaskHandler r app)"
proof -
  from prefix_tasks_length [OF assms] have "7 \<le> length (Path r)" by simp
  from slice_from_ok [OF this]
  have s: "slice_from (Path r) (int (length (Path r)) - 7) = Inr (drop (length (Path r) - 7) (Path r))"
    by simp
  then show ?thesis
    by (simp add: tasks_subtree_route_def tasks_subtree_handler_def)
qed

theorem tasks_subtree_routing_witness:
  "prefix ''/api/tasks/'' ''/api/tasks/12/toggle'' \<and>
   tasks_subtree_route \<lparr>Method = ''DELETE'', Path = ''/api/tasks/12/toggle''\<rparr> = Inr ToggleHandler \<and>
   prefix ''/api/tasks/'' ''/api/tasks/12'' \<and>
   tasks_subtree_route \<lparr>Method = ''PUT'', Path = ''/api/tasks/12''\<rparr> = Inr DeleteHandler"
proof -
  have h1: "prefix ''/api/tasks/'' (Path \<lparr>Method = ''GET'', Path = ''/api/tasks/12/toggle''\<rparr>)"
    by simp
  have h2: "prefix ''/api/tasks/'' (Path \<lparr>Method = ''GET'', Path = ''/api/tasks/12''\<rparr>)"
    by simp
  from tasks_subtree_routing [OF h1, of "''DELETE''"] tasks_subtree_routing [OF h2, of "''PUT''"]
  show ?thesis by simp
qed

text \<open>
  Claim C8 says that no request makes a handler panic. The request
  \<open>PUT /api/tasks/toggle\<close> does: its path is in the subtree and ends with \<open>/toggle\<close>, so it
  goes to \<open>ToggleTaskHandler\<close>; there \<open>idStr\<close> is \<open>toggle\<close>, six bytes, and
  \<open>idStr[:len(idStr)-len("/toggle")]\<close> is \<open>idStr[:-1]\<close>, a slice bound out of range.
\<close>

theorem toggle_route_panics:
  "tasks_subtree_route \<lparr>Method = ''PUT'', Path = ''/api/tasks/toggle''\<rparr> = Inr ToggleHandler \<and>
   tasks_subtree_handler \<lparr>Method = ''PUT'', Path = ''/api/tasks/toggle''\<rparr> app =
     Inl SliceBoundsOutOfRange"
  by (simp add: tasks_subtree_handler_def tasks_subtree_route_def slice_from_def slice_to_def
      ToggleTaskHandler_def)

text \<open>
  It is the only request under \<open>/api/tasks/\<close> that panics: every other one gets a response.
\<close>

lemma short_toggle:
  "length rest < 7 \<Longrightarrow>
   drop (length (''/api/tasks/'' @ rest) - 7) (''/api/tasks/'' @ rest) = ''/toggle'' \<Longrightarrow>
   rest = ''toggle''"
  by (auto simp: less_Suc_eq length_Suc_conv eval_nat_numeral)

lemma DeleteTaskHandler_returns:
  assumes "Path r = ''/api/tasks/'' @ rest"
  shows "\<exists>res. DeleteTaskHandler r app = Inr res"
  using assms
  by (auto simp: DeleteTaskHandler_def slice_from_def split: option.splits prod.splits)

lemma ToggleTaskHandler_panics_iff:
  assumes "Path r = ''/api/tasks/'' @ rest"
  shows "ToggleTaskHandler r app = Inl SliceBoundsOutOfRange \<longleftrightarrow>
         Method r = ''PUT'' \<and> length rest < 7"
  using assms
  by (auto simp: ToggleTaskHandler_def slice_from_def slice_to_def
      split: option.splits prod.splits)

lemma tasks_subtree_handler_panics_iff:
  assumes "prefix ''/api/tasks/'' (Path r)"
  shows "tasks_subtree_handler r app = Inl SliceBoundsOutOfRange \<longleftrightarrow>
         Method r = ''PUT'' \<and> Path r = ''/api/tasks/toggle''"
proof -
  from assms obtain rest where rest: "Path r = ''/api/tasks/'' @ rest"
    by (auto simp: prefix_def)
  have "7 \<le> length (Path r)" using rest by simp
  from slice_from_ok [OF this]
  have s: "slice_from (Path r) (int (length (Path r)) - 7) = Inr (drop (length (Path r) - 7) (Path r))"
    by simp
  show ?thesis
  proof (cases "drop (length (Path r) - 7) (Path r) = ''/toggle''")
    case True
    then have h: "tasks_subtree_handler r app = ToggleTaskHandler r app"
      using s by (simp add: tasks_subtree_handler_def tasks_subtree_route_def)
    have "length rest < 7 \<longleftrightarrow> rest = ''toggle''"
      using short_toggle [of rest] True rest by auto
    with h ToggleTaskHandler_panics_iff [OF rest, of app] rest show ?thesis by auto
  next
    case False
    then have h: "tasks_subtree_handler r app = DeleteTaskHandler r app"
      using s by (simp add: tasks_subtree_handler_def tasks_subtree_route_def)
    from False have "Path r \<noteq> ''/api/tasks/toggle''" by auto
    with h DeleteTaskHandler_returns [OF rest, of app] show ?thesis by auto
  qed
qed

section \<open>Requests for IDs that are not positive\<close>


lemma sint_word_of_nat_int64:
  assumes "n \<le> 9223372036854775807"
  shows "sint (word_of_nat n :: int64) = int n"
proof -
  have "sint (word_of_nat n :: int64) = signed_take_bit 63 (int n)"
    by (simp add: signed_of_nat)
  also have "\<dots> = int n"
    using assms by (intro signed_take_bit_int_eq_self) auto
  finally show ?thesis .
qed

lemma DeleteTask_subset: "set (tasks (snd (DeleteTask tid app))) \<subseteq> set (tasks app)"
  using DeleteTask_tasks [of tid app] by (auto dest: in_set_takeD in_set_dropD)

lemma ToggleTask_ID_set: "ID ` set (tasks (snd (ToggleTask tid app))) = ID ` set (tasks app)"
  using ToggleTask_IDs [of tid app] by (metis list.set_map)

lemma ids_positive_run:
  "nextID app = word_of_nat (Suc m) \<Longrightarrow> \<forall>i \<in> ID ` set (tasks app). 0 <s i \<Longrightarrow>
   m + creates ops \<le> 9223372036854775807 \<Longrightarrow>
   (\<forall>i \<in> ID ` set (tasks (run app ops)). 0 <s i) \<and>
   nextID (run app ops) = word_of_nat (Suc (m + creates ops))"
proof (induction ops arbitrary: app m)
  case Nil
  then show ?case by simp
next
  case (Cons x ops)
  show ?case
  proof (cases x)
    case (Create title)
    from Cons.prems(3) Create have b: "Suc m \<le> 9223372036854775807"
      and b': "Suc m + creates ops \<le> 9223372036854775807" by simp_all
    from sint_word_of_nat_int64 [OF b] have "0 <s (word_of_nat (Suc m) :: int64)"
      by (simp add: word_sless_alt)
    with Cons.prems(1,2)
    have p: "\<forall>i \<in> ID ` set (tasks (snd (AddTask title app))). 0 <s i"
      by (auto simp: AddTask_def Let_def)
    have n: "nextID (snd (AddTask title app)) = word_of_nat (Suc (Suc m))"
      using Cons.prems(1) by (simp add: AddTask_def Let_def)
    from Cons.IH [OF n p b'] Create show ?thesis by simp
  next
    case (Toggle tid)
    with Cons.IH [of "snd (ToggleTask tid app)" m] Cons.prems
    show ?thesis by (simp add: ToggleTask_nextID ToggleTask_ID_set)
  next
    case (Delete tid)
    have "\<forall>i \<in> ID ` set (tasks (snd (DeleteTask tid app))). 0 <s i"
      using Cons.prems(2) DeleteTask_subset [of tid app] by auto
    with Cons.IH [of "snd (DeleteTask tid app)" m] Cons.prems Delete
    show ?thesis by (simp add: DeleteTask_nextID)
  qed
qed

lemma DeleteTaskHandler_parsed:
  assumes "Atoi idStr = Some tid"
  shows "DeleteTaskHandler \<lparr>Method = ''DELETE'', Path = ''/api/tasks/'' @ idStr\<rparr> app =
         Inr (json_success (fst (DeleteTask tid app)), snd (DeleteTask tid app))"
  using assms by (simp add: DeleteTaskHandler_def slice_from_def split: prod.splits)

text \<open>\<open>Atoi\<close> reads back what \<open>Itoa\<close> prints, for every 64-bit integer.\<close>

lemma digit_char:
  assumes "d < 10"
  shows "is_digit (''0123456789'' ! d)" and "digit_val (''0123456789'' ! d) = int d"
    and "''0123456789'' ! d \<noteq> CHR ''-''" and "''0123456789'' ! d \<noteq> CHR ''+''"
proof -
  from assms have "d \<in> {0, 1, 2, 3, 4, 5, 6, 7, 8, 9}" by auto
  then show "is_digit (''0123456789'' ! d)" and "digit_val (''0123456789'' ! d) = int d"
    and "''0123456789'' ! d \<noteq> CHR ''-''" and "''0123456789'' ! d \<noteq> CHR ''+''"
    by (auto simp: is_digit_def digit_val_def)
qed

lemma decimal_snoc: "decimal (ds @ [c]) = decimal ds * 10 + digit_val c"
  by (simp add: decimal_def)

lemma decimal_of_props:
  "decimal (decimal_of n) = int n \<and> list_all is_digit (decimal_of n) \<and>
   decimal_of n \<noteq> [] \<and> hd (decimal_of n) \<noteq> CHR ''-'' \<and> hd (decimal_of n) \<noteq> CHR ''+''"
proof (induction n rule: decimal_of.induct)
  case (1 n)
  show ?case
  proof (cases "n < 10")
    case True
    have "decimal_of n = [''0123456789'' ! n]"
      using True by (subst decimal_of.simps) simp
    with digit_char [OF True] show ?thesis
      by (simp add: decimal_def)
  next
    case False
    have m: "n mod 10 < 10" by simp
    have e: "decimal_of n = decimal_of (n div 10) @ [''0123456789'' ! (n mod 10)]"
      using False by (subst decimal_of.simps) simp
    have "int (n div 10) * 10 + int (n mod 10) = int n"
      by (metis mult.commute of_nat_add of_nat_mult of_nat_numeral div_mult_mod_eq mult.commute)
    with "1.IH" [OF False] digit_char [OF m] show ?thesis
      unfolding e by (simp add: decimal_snoc)
  qed
qed

lemma Atoi_Itoa: "Atoi (Itoa i) = Some i"
proof (cases "i <s 0")
  case True
  then have neg: "sint i < 0" by (simp add: word_sless_alt)
  have lo: "- 9223372036854775808 \<le> sint i" using sint_ge [of i] by simp
  let ?n = "nat (- sint i)"
  from neg have n: "int ?n = - sint i" by simp
  have "- word_of_int (- sint i) = i" by simp
  with True n lo decimal_of_props [of ?n] show ?thesis
    by (simp add: Atoi_def Itoa_def Let_def)
next
  case False
  then have pos: "0 \<le> sint i" by (simp add: word_sless_alt)
  have hi: "sint i \<le> 9223372036854775807" using sint_lt [of i] by simp
  let ?n = "nat (sint i)"
  from pos have n: "int ?n = sint i" by simp
  with False hi decimal_of_props [of ?n] show ?thesis
    by (simp add: Atoi_def Itoa_def Let_def)
qed

text \<open>
  Claim C10, as amended. Take a store reached from \<open>NewTodoApp\<close> by a run with at most
  \<open>2^63 - 1 = 9223372036854775807\<close> calls of \<open>AddTask\<close>, and an ID that is zero or negative.
  The decimal form of the ID parses back to it, and the \<open>DELETE\<close> request for it, like the
  \<open>DELETE\<close> request with any other string that \<open>Atoi\<close> parses to this ID, is not rejected:
  it reaches \<open>DeleteTask\<close> and is answered with status 200 and \<open>{"success": false}\<close>,
  and the store is unchanged, since every ID in such a store is positive.
\<close>

theorem DeleteTaskHandler_nonpositive_id:
  assumes "creates ops \<le> 9223372036854775807" and "tid \<le>s 0"
  shows "Atoi (Itoa tid) = Some tid \<and>
         DeleteTaskHandler \<lparr>Method = ''DELETE'', Path = ''/api/tasks/'' @ Itoa tid\<rparr>
           (run NewTodoApp ops) =
         Inr (json_success False, run NewTodoApp ops) \<and>
         (Atoi idStr = Some tid \<longrightarrow>
          DeleteTaskHandler \<lparr>Method = ''DELETE'', Path = ''/api/tasks/'' @ idStr\<rparr>
            (run NewTodoApp ops) =
          Inr (json_success False, run NewTodoApp ops))"
proof -
  have n0: "nextID NewTodoApp = word_of_nat (Suc 0)" by (simp add: NewTodoApp_def)
  have p0: "\<forall>i \<in> ID ` set (tasks NewTodoApp). 0 <s i" by (simp add: NewTodoApp_def)
  have b: "0 + creates ops \<le> 9223372036854775807" using assms(1) by simp
  from ids_positive_run [OF n0 p0 b]
  have pos: "\<forall>i \<in> ID ` set (tasks (run NewTodoApp ops)). 0 <s i" by blast
  have "tid \<notin> ID ` set (tasks (run NewTodoApp ops))"
  proof
    assume "tid \<in> ID ` set (tasks (run NewTodoApp ops))"
    with pos have "0 <s tid" by blast
    with assms(2) show False by (simp add: word_sless_alt word_sle_eq)
  qed
  then have d: "DeleteTask tid (run NewTodoApp ops) = (False, run NewTodoApp ops)"
    by (rule DeleteTask_absent)
  have "DeleteTaskHandler \<lparr>Method = ''DELETE'', Path = ''/api/tasks/'' @ s\<rparr>
            (run NewTodoApp ops) = Inr (json_success False, run NewTodoApp ops)"
    if "Atoi s = Some tid" for s
    using DeleteTaskHandler_parsed [OF that, of "run NewTodoApp ops"] d by simp
  with Atoi_Itoa [of tid] show ?thesis by blast
qed

theorem DeleteTaskHandler_nonpositive_id_witness:
  "creates [Create ''a'', Create ''b''] \<le> 9223372036854775807 \<and> (- 5 :: int64) \<le>s 0 \<and>
   Itoa (- 5) = ''-5'' \<and> Atoi ''-05'' = Some (- 5) \<and>
   DeleteTaskHandler \<lparr>Method = ''DELETE'', Path = ''/api/tasks/-5''\<rparr>
     (run NewTodoApp [Create ''a'', Create ''b'']) =
   Inr (\<lparr>StatusCode = 200, ContentType = ''application/json'', Body = SuccessJSON False\<rparr>,
        \<lparr>tasks = [\<lparr>ID = 1, Title = ''a'', Completed = False\<rparr>,
                  \<lparr>ID = 2, Title = ''b'', Completed = False\<rparr>], nextID = 3\<rparr>) \<and>
   DeleteTaskHandler \<lparr>Method = ''DELETE'', Path = ''/api/tasks/-05''\<rparr>
     (run NewTodoApp [Create ''a'', Create ''b'']) =
   Inr (\<lparr>StatusCode = 200, ContentType = ''application/json'', Body = SuccessJSON False\<rparr>,
        \<lparr>tasks = [\<lparr>ID = 1, Title = ''a'', Completed = False\<rparr>,
                  \<lparr>ID = 2, Title = ''b'', Completed = False\<rparr>], nextID = 3\<rparr>)"
proof -
  have c: "creates [Create ''a'', Create ''b''] \<le> 9223372036854775807" by simp
  have a: "Atoi ''-05'' = Some (- 5)"
    by (simp add: Atoi_def decimal_def digit_val_def is_digit_def)
  have s: "(- 5 :: int64) \<le>s 0" by (simp add: word_sle_eq)
  have i: "Itoa (- 5) = ''-5''"
    by (simp add: Itoa_def decimal_of.simps word_sless_alt)
  have r: "run NewTodoApp [Create ''a'', Create ''b''] =
      \<lparr>tasks = [\<lparr>ID = 1, Title = ''a'', Completed = False\<rparr>,
                \<lparr>ID = 2, Title = ''b'', Completed = False\<rparr>], nextID = 3\<rparr>"
    by (simp add: NewTodoApp_def AddTask_def Let_def)
  from DeleteTaskHandler_nonpositive_id [OF c s, of "''-05''"] c a s i r show ?thesis
    by (simp add: json_success_def)
qed

text \<open>
  Without the bound the claim fails. After \<open>2^63 - 1\<close> rounds of creating and deleting a
  task the counter has wrapped around to \<open>- 2^63\<close>, the next task created gets that ID, and
  the request \<open>DELETE /api/tasks/-9223372036854775808\<close> finds it and answers
  \<open>{"success": true}\<close>.
\<close>

theorem DeleteTaskHandler_nonpositive_id_counterexample:
  "creates (churn 1 9223372036854775807 @ [Create []]) = 9223372036854775808 \<and>
   Atoi ''-9223372036854775808'' = Some (- 9223372036854775808) \<and>
   (- 9223372036854775808 :: int64) \<le>s 0 \<and>
   tasks (run NewTodoApp (churn 1 9223372036854775807 @ [Create []])) =
     [\<lparr>ID = - 9223372036854775808, Title = [], Completed = False\<rparr>] \<and>
   DeleteTaskHandler \<lparr>Method = ''DELETE'', Path = ''/api/tasks/-9223372036854775808''\<rparr>
     (run NewTodoApp (churn 1 9223372036854775807 @ [Create []])) =
   Inr (\<lparr>StatusCode = 200, ContentType = ''application/json'', Body = SuccessJSON True\<rparr>,
        \<lparr>tasks = [], nextID = - 9223372036854775807\<rparr>)"
proof -
  have a: "Atoi ''-9223372036854775808'' = Some (- 9223372036854775808)"
    by (simp add: Atoi_def decimal_def digit_val_def is_digit_def)
  have s: "(- 9223372036854775808 :: int64) \<le>s 0" by (simp add: word_sle_eq)
  have r: "run NewTodoApp (churn 1 9223372036854775807 @ [Create []]) =
      \<lparr>tasks = [\<lparr>ID = - 9223372036854775808, Title = [], Completed = False\<rparr>],
       nextID = - 9223372036854775807\<rparr>"
    unfolding run_append NewTodoApp_def run_churn
    by (simp add: AddTask_def Let_def)
  have d: "DeleteTask (- 9223372036854775808)
      \<lparr>tasks = [\<lparr>ID = - 9223372036854775808, Title = [], Completed = False\<rparr>],
       nextID = - 9223372036854775807\<rparr> = (True, \<lparr>tasks = [], nextID = - 9223372036854775807\<rparr>)"
    by (simp add: DeleteTask_def DeleteTask_loop.simps)
  have "DeleteTaskHandler \<lparr>Method = ''DELETE'', Path = ''/api/tasks/'' @ ''-9223372036854775808''\<rparr>
     (run NewTodoApp (churn 1 9223372036854775807 @ [Create []])) =
   Inr (json_success True, \<lparr>tasks = [], nextID = - 9223372036854775807\<rparr>)"
    unfolding DeleteTaskHandler_parsed [OF a] r d by simp
  moreover have "creates (churn 1 9223372036854775807 @ [Create []]) = 9223372036854775808"
    by (simp add: creates_append creates_churn)
  ultimately show ?thesis using a s r by (simp add: json_success_def)
qed

section \<open>The store in memory and the snapshots of \<open>GetTasks\<close>\<close>

text \<open>
  Each method over the memory does to \<open>store_of\<close> what the method of the first section
  does to the store, keeps the slice of the store well formed, and changes no allocated
  array but the store's own.
\<close>

lemma length_elems: "slice_wf m s \<Longrightarrow> length (elems m s) = len s"
  by (auto simp: slice_wf_def elems_def)

lemma write_at_frame:
  "lim (write_at s k xs m) = lim m"
  "a \<noteq> ptr s \<Longrightarrow> arrays (write_at s k xs m) a = arrays m a"
  by (simp_all add: write_at_def)

lemma write_at_wf:
  assumes "slice_wf m s" and "k + length xs \<le> cap s"
  shows "slice_wf (write_at s k xs m) (s\<lparr>len := n\<rparr>) \<longleftrightarrow> n \<le> cap s"
  using assms by (auto simp: slice_wf_def write_at_def)

lemma write_at_wf_other:
  assumes "slice_wf m t" and "ptr t \<noteq> ptr s"
  shows "slice_wf (write_at s k xs m) t" and "elems (write_at s k xs m) t = elems m t"
  using assms by (auto simp: slice_wf_def write_at_def elems_def)

lemma elems_write_at_end:
  assumes "slice_wf m s" and "len s + length xs \<le> cap s"
  shows "elems (write_at s (len s) xs m) (s\<lparr>len := len s + length xs\<rparr>) = elems m s @ xs"
  using assms by (auto simp: slice_wf_def write_at_def elems_def drop_take)

lemma elems_write_at_one:
  assumes "slice_wf m s" and "i < len s"
  shows "elems (write_at s i [v] m) s = (elems m s)[i := v]"
proof -
  let ?a = "arrays m (ptr s)"
  from assms have l: "off s + i < length ?a" by (auto simp: slice_wf_def)
  have "take (off s + i) ?a @ [v] @ drop (off s + i + 1) ?a = ?a[off s + i := v]"
    using l by (simp add: upd_conv_take_nth_drop)
  then have "elems (write_at s i [v] m) s = take (len s) (drop (off s) (?a[off s + i := v]))"
    by (simp add: write_at_def elems_def)
  also have "\<dots> = (elems m s)[i := v]"
    using assms(2) by (simp add: elems_def drop_update_swap take_update_swap)
  finally show ?thesis .
qed


lemma go_append_refines:
  assumes "slice_wf m s" and "go_append growcap s xs m = (s', m')"
  shows "elems m' s' = elems m s @ xs" and "slice_wf m' s'" and "frame m m' (ptr s)"
    and "ptr s' = ptr s \<or> ptr s' = lim m"
proof -
  show "elems m' s' = elems m s @ xs"
  proof (cases "len s + length xs \<le> cap s")
    case True
    with assms(2) have "s' = s\<lparr>len := len s + length xs\<rparr>" "m' = write_at s (len s) xs m"
      by (simp_all add: go_append_def)
    with elems_write_at_end [OF assms(1) True] show ?thesis by simp
  next
    case False
    with assms show ?thesis
      by (auto simp: go_append_def Let_def elems_def slice_wf_def)
  qed
  show "slice_wf m' s'"
  proof (cases "len s + length xs \<le> cap s")
    case True
    with assms(2) have "s' = s\<lparr>len := len s + length xs\<rparr>" "m' = write_at s (len s) xs m"
      by (simp_all add: go_append_def)
    with write_at_wf [OF assms(1) True, of "len s + length xs"] True show ?thesis by simp
  next
    case False
    with assms show ?thesis
      by (auto simp: go_append_def Let_def elems_def slice_wf_def)
  qed
  show "frame m m' (ptr s)"
    using assms by (auto simp: go_append_def Let_def frame_def write_at_def split: if_splits)
  show "ptr s' = ptr s \<or> ptr s' = lim m"
    using assms by (auto simp: go_append_def Let_def split: if_splits)
qed

lemma AddTask_mem_refines:
  assumes "slice_wf m (tasks_hdr app)" and "AddTask_mem growcap title app m = (task, app', m')"
  shows "(task, store_of m' app') = AddTask title (store_of m app)"
    and "slice_wf m' (tasks_hdr app')" and "frame m m' (ptr (tasks_hdr app))"
proof -
  let ?t = "\<lparr>ID = nextID_mem app, Title = title, Completed = False\<rparr>"
  obtain s m1 where a: "go_append growcap (tasks_hdr app) [?t] m = (s, m1)"
    by (cases "go_append growcap (tasks_hdr app) [?t] m")
  with assms(2) have r: "task = ?t" "app' = \<lparr>tasks_hdr = s, nextID_mem = nextID_mem app + 1\<rparr>" "m' = m1"
    by (auto simp: AddTask_mem_def Let_def)
  from go_append_refines [OF assms(1) a] r
  show "(task, store_of m' app') = AddTask title (store_of m app)"
    and "slice_wf m' (tasks_hdr app')" and "frame m m' (ptr (tasks_hdr app))"
    by (simp_all add: store_of_def AddTask_def Let_def)
qed

lemma GetTasks_copies:
  assumes "slice_wf m (tasks_hdr app)" and "GetTasks app m = (snap, m1)"
  shows "elems m1 snap = elems m (tasks_hdr app)" and "slice_wf m1 snap"
    and "ptr snap = lim m" and "frame m m1 (lim m)" and "lim m1 = Suc (lim m)"
    and "slice_wf m1 (tasks_hdr app)"
proof -
  let ?s = "tasks_hdr app"
  let ?c = "\<lparr>ptr = lim m, off = 0, len = len ?s, cap = len ?s\<rparr>"
  let ?m0 = "m\<lparr>arrays := (arrays m)(lim m := replicate (len ?s) zero_Task), lim := Suc (lim m)\<rparr>"
  from assms(1) have ne: "ptr ?s \<noteq> lim m" and l: "length (elems m ?s) = len ?s"
    by (auto simp: slice_wf_def elems_def)
  have e0: "elems ?m0 ?s = elems m ?s" using ne by (simp add: elems_def)
  from assms(2) have snap: "snap = ?c" and m1: "m1 = go_copy ?c ?s ?m0"
    by (auto simp: GetTasks_def go_make_def Let_def)
  have m1': "arrays m1 = (arrays m)(lim m := elems m ?s)" "lim m1 = Suc (lim m)"
    unfolding m1 using l e0 by (simp_all add: go_copy_def write_at_def fun_eq_iff)
  show "elems m1 snap = elems m ?s" using m1' l by (simp add: snap elems_def)
  show "slice_wf m1 snap" using m1' l by (simp add: snap slice_wf_def)
  show "ptr snap = lim m" by (simp add: snap)
  show "frame m m1 (lim m)" using m1' by (simp add: frame_def)
  show "lim m1 = Suc (lim m)" by (rule m1')
  show "slice_wf m1 ?s" using assms(1) m1' ne by (simp add: slice_wf_def)
qed


lemma frame_refl: "frame m m p"
  by (simp add: frame_def)

lemma frame_write_at: "frame m (write_at s k xs m) (ptr s)"
  by (simp add: frame_def write_at_def)

lemma ToggleTask_mem_loop_refines:
  "slice_wf m (tasks_hdr app) \<Longrightarrow> ToggleTask_mem_loop i tid app m = (b, app', m') \<Longrightarrow>
   (b, store_of m' app') = ToggleTask_loop i tid (store_of m app) \<and> app' = app \<and>
   slice_wf m' (tasks_hdr app') \<and> frame m m' (ptr (tasks_hdr app))"
proof (induction i tid app m rule: ToggleTask_mem_loop.induct)
  case (1 i tid app m)
  let ?s = "tasks_hdr app"
  let ?xs = "elems m ?s"
  have l: "length ?xs = len ?s" using "1.prems"(1) by (rule length_elems)
  have t: "tasks (store_of m app) = ?xs" by (simp add: store_of_def)
  show ?case
  proof (cases "i < len ?s")
    case False
    with "1.prems"(2) have "b = False" "app' = app" "m' = m"
      by (auto simp: ToggleTask_mem_loop.simps [of i])
    moreover have "ToggleTask_loop i tid (store_of m app) = (False, store_of m app)"
      using False l t by (simp add: ToggleTask_loop.simps [of i])
    ultimately show ?thesis using "1.prems"(1) by (simp add: frame_refl)
  next
    case True
    show ?thesis
    proof (cases "ID (?xs ! i) = tid")
      case hit: True
      let ?v = "(?xs ! i)\<lparr>Completed := \<not> Completed (?xs ! i)\<rparr>"
      from "1.prems"(2) True hit have r: "b = True" "app' = app" "m' = write_at ?s i [?v] m"
        by (auto simp: ToggleTask_mem_loop.simps [of i])
      have "ToggleTask_loop i tid (store_of m app) =
          (True, (store_of m app)\<lparr>tasks := ?xs[i := ?v]\<rparr>)"
        using True hit l t by (simp add: ToggleTask_loop.simps [of i])
      moreover have "elems m' ?s = ?xs[i := ?v]"
        unfolding r using "1.prems"(1) True by (rule elems_write_at_one)
      moreover have "slice_wf m' ?s"
        using write_at_wf [OF "1.prems"(1), of i "[?v]" "len ?s"] True "1.prems"(1)
        by (simp add: r slice_wf_def)
      ultimately show ?thesis
        using r by (simp add: store_of_def frame_write_at)
    next
      case miss: False
      from "1.prems"(2) True miss
      have "ToggleTask_mem_loop (Suc i) tid app m = (b, app', m')"
        by (simp add: ToggleTask_mem_loop.simps [of i])
      from "1.IH" [OF True miss "1.prems"(1) this]
      have "(b, store_of m' app') = ToggleTask_loop (Suc i) tid (store_of m app) \<and> app' = app \<and>
            slice_wf m' (tasks_hdr app') \<and> frame m m' (ptr ?s)" .
      moreover have "ToggleTask_loop i tid (store_of m app) =
          ToggleTask_loop (Suc i) tid (store_of m app)"
        using True miss l t by (simp add: ToggleTask_loop.simps [of i])
      ultimately show ?thesis by auto
    qed
  qed
qed


lemma subslice_prefix:
  assumes "slice_wf m s" and "i \<le> len s"
  shows "slice_wf m (subslice s 0 i)" and "elems m (subslice s 0 i) = take i (elems m s)"
    and "ptr (subslice s 0 i) = ptr s"
  using assms by (auto simp: slice_wf_def subslice_def elems_def min_def)

lemma subslice_suffix:
  "elems m (subslice s lo (len s)) = drop lo (elems m s)"
  by (simp add: subslice_def elems_def drop_take add.commute)

lemma DeleteTask_mem_loop_refines:
  "slice_wf m (tasks_hdr app) \<Longrightarrow> DeleteTask_mem_loop growcap i tid app m = (b, app', m') \<Longrightarrow>
   (b, store_of m' app') = DeleteTask_loop i tid (store_of m app) \<and>
   slice_wf m' (tasks_hdr app') \<and> frame m m' (ptr (tasks_hdr app))"
proof (induction growcap i tid app m rule: DeleteTask_mem_loop.induct)
  case (1 growcap i tid app m)
  let ?s = "tasks_hdr app"
  let ?xs = "elems m ?s"
  have l: "length ?xs = len ?s" using "1.prems"(1) by (rule length_elems)
  have t: "tasks (store_of m app) = ?xs" by (simp add: store_of_def)
  show ?case
  proof (cases "i < len ?s")
    case False
    with "1.prems"(2) have "b = False" "app' = app" "m' = m"
      by (auto simp: DeleteTask_mem_loop.simps [of _ i])
    moreover have "DeleteTask_loop i tid (store_of m app) = (False, store_of m app)"
      using False l t by (simp add: DeleteTask_loop.simps [of i])
    ultimately show ?thesis using "1.prems"(1) by (simp add: frame_refl)
  next
    case True
    show ?thesis
    proof (cases "ID (?xs ! i) = tid")
      case hit: True
      obtain s1 m1 where a: "go_append growcap (subslice ?s 0 i)
          (elems m (subslice ?s (Suc i) (len ?s))) m = (s1, m1)"
        by (cases "go_append growcap (subslice ?s 0 i)
          (elems m (subslice ?s (Suc i) (len ?s))) m")
      with "1.prems"(2) True hit have r: "b = True" "app' = app\<lparr>tasks_hdr := s1\<rparr>" "m' = m1"
        by (auto simp: DeleteTask_mem_loop.simps [of _ i])
      from True have il: "i \<le> len ?s" by simp
      from go_append_refines [OF subslice_prefix(1) [OF "1.prems"(1) il] a]
      have "elems m1 s1 = take i ?xs @ drop (Suc i) ?xs" and "slice_wf m1 s1"
        and "frame m m1 (ptr ?s)"
        by (simp_all add: subslice_prefix [OF "1.prems"(1) il] subslice_suffix)
      moreover have "DeleteTask_loop i tid (store_of m app) =
          (True, (store_of m app)\<lparr>tasks := take i ?xs @ drop (Suc i) ?xs\<rparr>)"
        using True hit l t by (simp add: DeleteTask_loop.simps [of i])
      ultimately show ?thesis using r by (simp add: store_of_def)
    next
      case miss: False
      from "1.prems"(2) True miss
      have "DeleteTask_mem_loop growcap (Suc i) tid app m = (b, app', m')"
        by (simp add: DeleteTask_mem_loop.simps [of _ i])
      from "1.IH" [OF True miss "1.prems"(1) this]
      have "(b, store_of m' app') = DeleteTask_loop (Suc i) tid (store_of m app) \<and>
            slice_wf m' (tasks_hdr app') \<and> frame m m' (ptr ?s)" .
      moreover have "DeleteTask_loop i tid (store_of m app) =
          DeleteTask_loop (Suc i) tid (store_of m app)"
        using True miss l t by (simp add: DeleteTask_loop.simps [of i])
      ultimately show ?thesis by auto
    qed
  qed
qed

lemma step_mem_refines:
  assumes "slice_wf m (tasks_hdr app)" and "step_mem growcap (app, m) x = (app', m')"
  shows "store_of m' app' = step (store_of m app) x \<and> slice_wf m' (tasks_hdr app')"
proof (cases x)
  case (Create title)
  obtain task where "AddTask_mem growcap title app m = (task, app', m')"
    using assms(2) Create by (cases "AddTask_mem growcap title app m") simp
  from AddTask_mem_refines [OF assms(1) this] Create show ?thesis
    by (metis snd_conv step.simps(1))
next
  case (Toggle tid)
  obtain b where "ToggleTask_mem_loop 0 tid app m = (b, app', m')"
    using assms(2) Toggle by (cases "ToggleTask_mem_loop 0 tid app m") (simp add: ToggleTask_mem_def)
  from ToggleTask_mem_loop_refines [OF assms(1) this] Toggle show ?thesis
    by (metis ToggleTask_def snd_conv step.simps(2))
next
  case (Delete tid)
  obtain b where "DeleteTask_mem_loop growcap 0 tid app m = (b, app', m')"
    using assms(2) Delete
    by (cases "DeleteTask_mem_loop growcap 0 tid app m") (simp add: DeleteTask_mem_def)
  from DeleteTask_mem_loop_refines [OF assms(1) this] Delete show ?thesis
    by (metis DeleteTask_def snd_conv step.simps(3))
qed

lemma run_mem_refines:
  "slice_wf m (tasks_hdr app) \<Longrightarrow> run_mem growcap (app, m) ops = (app', m') \<Longrightarrow>
   store_of m' app' = run (store_of m app) ops \<and> slice_wf m' (tasks_hdr app')"
proof (induction ops arbitrary: app m)
  case Nil
  then show ?case by simp
next
  case (Cons x ops)
  obtain app1 m1 where s: "step_mem growcap (app, m) x = (app1, m1)"
    by (cases "step_mem growcap (app, m) x")
  from step_mem_refines [OF Cons.prems(1) s]
  have r: "store_of m1 app1 = step (store_of m app) x" and w: "slice_wf m1 (tasks_hdr app1)"
    by simp_all
  from Cons.prems(2) s have "run_mem growcap (app1, m1) ops = (app', m')" by simp
  from Cons.IH [OF w this] r show ?case by simp
qed

lemma NewTodoApp_mem_refines:
  assumes "NewTodoApp_mem m0 = (app, m)"
  shows "store_of m app = NewTodoApp" and "slice_wf m (tasks_hdr app)"
  using assms
  by (auto simp: NewTodoApp_mem_def go_make_def store_of_def NewTodoApp_def elems_def slice_wf_def)

lemma run_creates:
  "map Title (tasks (run app (map Create titles))) = map Title (tasks app) @ titles \<and>
   map Completed (tasks (run app (map Create titles))) =
     map Completed (tasks app) @ replicate (length titles) False \<and>
   map ID (tasks (run app (map Create titles))) =
     map ID (tasks app) @ map (\<lambda>k. nextID app + word_of_nat k) [0..<length titles]"
proof (induction titles arbitrary: app)
  case Nil
  then show ?case by simp
next
  case (Cons t titles)
  let ?app1 = "snd (AddTask t app)"
  have a: "tasks ?app1 = tasks app @ [\<lparr>ID = nextID app, Title = t, Completed = False\<rparr>]"
    "nextID ?app1 = nextID app + 1"
    by (simp_all add: AddTask_def Let_def)
  have u: "[0..<Suc (length titles)] = 0 # map Suc [0..<length titles]"
    by (simp add: upt_conv_Cons map_Suc_upt del: upt_Suc)
  have "map (\<lambda>k. nextID app + word_of_nat k) [0..<Suc (length titles)] =
      nextID app # map (\<lambda>k. nextID app + 1 + word_of_nat k) [0..<length titles]"
    unfolding u by (simp add: comp_def add.assoc)
  with Cons.IH [of ?app1] a show ?case
    by (simp add: replicate_app_Cons_same del: upt_Suc)
qed

lemma run_creates_New:
  "map Title (tasks (run NewTodoApp (map Create titles))) = titles \<and>
   map Completed (tasks (run NewTodoApp (map Create titles))) = replicate (length titles) False \<and>
   map ID (tasks (run NewTodoApp (map Create titles))) =
     map word_of_nat [1..<Suc (length titles)]"
proof -
  have "map (\<lambda>k. 1 + word_of_nat k) [0..<n] = (map word_of_nat [1..<Suc n] :: int64 list)" for n
  proof -
    have "map (\<lambda>k. 1 + word_of_nat k) [0..<n] = (map (word_of_nat \<circ> Suc) [0..<n] :: int64 list)"
      by simp
    also have "\<dots> = map word_of_nat (map Suc [0..<n])" by simp
    also have "map Suc [0..<n] = [1..<Suc n]" by (simp add: map_Suc_upt)
    finally show ?thesis .
  qed
  with run_creates [of NewTodoApp titles] show ?thesis
    by (simp add: NewTodoApp_def)
qed

lemma slice_stores_frame:
  "slice_stores s ws m = Inr m' \<Longrightarrow>
   lim m' = lim m \<and> (\<forall>a. a \<noteq> ptr s \<longrightarrow> arrays m' a = arrays m a)"
proof (induction ws arbitrary: m)
  case Nil
  then show ?case by simp
next
  case (Cons w ws)
  obtain i v where w: "w = (i, v)" by (cases w)
  from Cons.prems w obtain m1 where
    m1: "slice_store s i v m = Inr m1" and r: "slice_stores s ws m1 = Inr m'"
    by (auto split: sum.splits)
  from m1 have "lim m1 = lim m \<and> (\<forall>a. a \<noteq> ptr s \<longrightarrow> arrays m1 a = arrays m a)"
    by (auto simp: slice_store_def write_at_def split: if_splits)
  with Cons.IH [OF r] show ?case by simp
qed

text \<open>
  Claim C5. Take a store in memory whose slice is well formed, the snapshot \<open>GetTasks\<close>
  returns for it, and any sequence of element assignments \<open>snapshot[i] = v\<close> that a caller
  makes on the snapshot. The snapshot holds exactly the tasks of the store, in their order;
  it lies in an array of its own, allocated by the call; neither the call nor the
  assignments change the store; and a later \<open>GetTasks\<close> returns the tasks of the store again,
  in a further array of its own. When the store is the one that \<open>N\<close> calls of \<open>AddTask\<close> and
  nothing else produce from a new store, the snapshot has \<open>N\<close> tasks, with the titles
  in the order of the calls, the IDs \<open>1, \<dots>, N\<close> and \<open>Completed\<close> false.
\<close>

theorem GetTasks_snapshot:
  assumes "slice_wf m (tasks_hdr app)"
    and "GetTasks app m = (snap, m1)"
    and "slice_stores snap ws m1 = Inr m2"
  shows "elems m1 snap = tasks (store_of m app) \<and>
         ptr snap \<noteq> ptr (tasks_hdr app) \<and>
         store_of m1 app = store_of m app \<and>
         store_of m2 app = store_of m app \<and>
         elems (snd (GetTasks app m2)) (fst (GetTasks app m2)) = tasks (store_of m app) \<and>
         ptr (fst (GetTasks app m2)) \<noteq> ptr snap \<and>
         ptr (fst (GetTasks app m2)) \<noteq> ptr (tasks_hdr app) \<and>
         (run_mem growcap (NewTodoApp_mem m0) (map Create titles) = (app, m) \<longrightarrow>
            length (elems m1 snap) = length titles \<and>
            map Title (elems m1 snap) = titles \<and>
            map ID (elems m1 snap) = map word_of_nat [1..<Suc (length titles)] \<and>
            map Completed (elems m1 snap) = replicate (length titles) False)"
proof -
  let ?s = "tasks_hdr app"
  from assms(1) have alloc: "ptr ?s < lim m" by (simp add: slice_wf_def)
  note g = GetTasks_copies [OF assms(1,2)]
  have e1: "elems m1 snap = tasks (store_of m app)" using g(1) by (simp add: store_of_def)
  have ne: "ptr snap \<noteq> ptr ?s" using g(3) alloc by simp
  have a1: "arrays m1 (ptr ?s) = arrays m (ptr ?s)"
    using g(4) alloc ne g(3) by (simp add: frame_def)
  then have s1: "store_of m1 app = store_of m app" by (simp add: store_of_def elems_def)
  from slice_stores_frame [OF assms(3)] ne
  have l2: "lim m2 = lim m1" and a2: "arrays m2 (ptr ?s) = arrays m1 (ptr ?s)" by simp_all
  then have s2: "store_of m2 app = store_of m app"
    using a1 by (simp add: store_of_def elems_def)
  have w2: "slice_wf m2 ?s" using g(6) l2 a2 by (simp add: slice_wf_def)
  obtain snap' m3 where g2: "GetTasks app m2 = (snap', m3)" by (cases "GetTasks app m2")
  note h = GetTasks_copies [OF w2 g2]
  have e3: "elems m3 snap' = tasks (store_of m app)"
    using h(1) s2 by (simp add: store_of_def)
  have p3: "ptr snap' \<noteq> ptr snap" "ptr snap' \<noteq> ptr ?s"
    using h(3) l2 g(3,5) alloc by simp_all
  have n: "length (elems m1 snap) = length titles \<and>
            map Title (elems m1 snap) = titles \<and>
            map ID (elems m1 snap) = map word_of_nat [1..<Suc (length titles)] \<and>
            map Completed (elems m1 snap) = replicate (length titles) False"
    if r: "run_mem growcap (NewTodoApp_mem m0) (map Create titles) = (app, m)"
  proof -
    obtain app0 m0' where i: "NewTodoApp_mem m0 = (app0, m0')" by (cases "NewTodoApp_mem m0")
    from run_mem_refines [OF NewTodoApp_mem_refines(2) [OF i], of growcap "map Create titles" app m] r i
    have "store_of m app = run NewTodoApp (map Create titles)"
      by (simp add: NewTodoApp_mem_refines(1) [OF i])
    with e1 run_creates_New [of titles] have
      "map Title (elems m1 snap) = titles \<and>
       map ID (elems m1 snap) = map word_of_nat [1..<Suc (length titles)] \<and>
       map Completed (elems m1 snap) = replicate (length titles) False" by simp
    moreover from this have "length (elems m1 snap) = length titles"
      by (metis length_map)
    ultimately show ?thesis by simp
  qed
  from e1 ne s1 s2 e3 p3 n g2 show ?thesis by simp
qed

lemma example_mem_run:
  "run_mem (\<lambda>c. 2 * c) (NewTodoApp_mem \<lparr>arrays = \<lambda>a. [], lim = 0\<rparr>)
     [Create ''a'', Create ''b''] = (example_mem_app, example_mem)"
  by (simp add: NewTodoApp_mem_def go_make_def AddTask_mem_def go_append_def Let_def
      elems_def example_mem_app_def example_mem_def numeral_2_eq_2 numeral_3_eq_3)

theorem GetTasks_snapshot_witness:
  "slice_wf example_mem (tasks_hdr example_mem_app) \<and>
   fst (GetTasks example_mem_app example_mem) = \<lparr>ptr = 3, off = 0, len = 2, cap = 2\<rparr> \<and>
   slice_stores (fst (GetTasks example_mem_app example_mem))
     [(0, \<lparr>ID = 1, Title = ''Modified'', Completed = False\<rparr>)]
     (snd (GetTasks example_mem_app example_mem)) =
   Inr (write_at (fst (GetTasks example_mem_app example_mem)) 0
     [\<lparr>ID = 1, Title = ''Modified'', Completed = False\<rparr>]
     (snd (GetTasks example_mem_app example_mem))) \<and>
   run_mem (\<lambda>c. 2 * c) (NewTodoApp_mem \<lparr>arrays = \<lambda>a. [], lim = 0\<rparr>)
     [Create ''a'', Create ''b''] = (example_mem_app, example_mem) \<and>
   elems (snd (GetTasks example_mem_app example_mem)) (fst (GetTasks example_mem_app example_mem)) =
     [\<lparr>ID = 1, Title = ''a'', Completed = False\<rparr>, \<lparr>ID = 2, Title = ''b'', Completed = False\<rparr>] \<and>
   elems (write_at (fst (GetTasks example_mem_app example_mem)) 0
     [\<lparr>ID = 1, Title = ''Modified'', Completed = False\<rparr>]
     (snd (GetTasks example_mem_app example_mem))) (fst (GetTasks example_mem_app example_mem)) =
     [\<lparr>ID = 1, Title = ''Modified'', Completed = False\<rparr>,
      \<lparr>ID = 2, Title = ''b'', Completed = False\<rparr>] \<and>
   store_of (write_at (fst (GetTasks example_mem_app example_mem)) 0
     [\<lparr>ID = 1, Title = ''Modified'', Completed = False\<rparr>]
     (snd (GetTasks example_mem_app example_mem))) example_mem_app =
     \<lparr>tasks = [\<lparr>ID = 1, Title = ''a'', Completed = False\<rparr>,
               \<lparr>ID = 2, Title = ''b'', Completed = False\<rparr>], nextID = 3\<rparr> \<and>
   elems
     (snd (GetTasks example_mem_app (write_at (fst (GetTasks example_mem_app example_mem)) 0
        [\<lparr>ID = 1, Title = ''Modified'', Completed = False\<rparr>]
        (snd (GetTasks example_mem_app example_mem)))))
     (fst (GetTasks example_mem_app (write_at (fst (GetTasks example_mem_app example_mem)) 0
        [\<lparr>ID = 1, Title = ''Modified'', Completed = False\<rparr>]
        (snd (GetTasks example_mem_app example_mem))))) =
     [\<lparr>ID = 1, Title = ''a'', Completed = False\<rparr>, \<lparr>ID = 2, Title = ''b'', Completed = False\<rparr>]"
proof -
  let ?v = "\<lparr>ID = 1, Title = ''Modified'', Completed = False\<rparr>"
  let ?snap = "fst (GetTasks example_mem_app example_mem)"
  let ?m1 = "snd (GetTasks example_mem_app example_mem)"
  have w: "slice_wf example_mem (tasks_hdr example_mem_app)"
    by (simp add: slice_wf_def example_mem_def example_mem_app_def)
  have g: "GetTasks example_mem_app example_mem = (?snap, ?m1)" by simp
  have sn: "?snap = \<lparr>ptr = 3, off = 0, len = 2, cap = 2\<rparr>"
    by (simp add: GetTasks_def go_make_def Let_def example_mem_def example_mem_app_def)
  have st: "slice_stores ?snap [(0, ?v)] ?m1 = Inr (write_at ?snap 0 [?v] ?m1)"
    unfolding sn by (simp add: slice_store_def)
  have e2: "elems (write_at ?snap 0 [?v] ?m1) ?snap =
      [?v, \<lparr>ID = 2, Title = ''b'', Completed = False\<rparr>]"
    by (simp add: GetTasks_def go_make_def go_copy_def write_at_def elems_def Let_def
        example_mem_def example_mem_app_def)
  have s0: "store_of example_mem example_mem_app =
      \<lparr>tasks = [\<lparr>ID = 1, Title = ''a'', Completed = False\<rparr>,
                \<lparr>ID = 2, Title = ''b'', Completed = False\<rparr>], nextID = 3\<rparr>"
    by (simp add: store_of_def elems_def example_mem_def example_mem_app_def)
  from GetTasks_snapshot [OF w g st, of "\<lambda>c. 2 * c" "\<lparr>arrays = \<lambda>a. [], lim = 0\<rparr>" "[''a'', ''b'']"]
    w sn st example_mem_run e2 s0
  show ?thesis by simp
qed

end
